theory Spec2Isabelle
  imports Main "HOL-Library.Multiset"
begin

section \<open>Cards\<close>

text \<open>
  A card is the Python string \<open>f"{val}{suit}"\<close>, for instance \<open>''10H''\<close>: the rank
  followed by one suit letter.  Indexing and \<open>list.index\<close> raise in Python; the
  exceptions are values of \<open>py_error\<close> here.
\<close>

type_synonym card = string

datatype py_error = IndexError | ValueError | TypeError

definition DECK_ORDER :: "string list" where
  "DECK_ORDER =
     [''A'', ''2'', ''3'', ''4'', ''5''] @ [''6'', ''7'', ''8'', ''9'', ''10''] @ [''J'', ''Q'', ''K'']"

definition deck_suits :: "string list" where
  "deck_suits = [''H'', ''D'', ''C'', ''S'']"

definition deck_values :: "string list" where
  "deck_values =
     [''A''] @ ([''2'', ''3'', ''4'', ''5''] @ [''6'', ''7'', ''8'', ''9'', ''10'']) @ [''J'', ''Q'', ''K'']"

text \<open>
  \<open>create_full_deck\<close> builds the comprehension
  \<open>[f"{val}{suit}" for suit in suits for val in values]\<close> and shuffles it in place.
  \<open>unshuffled_deck\<close> is the comprehension; the outcome of \<open>random.shuffle\<close> is some
  list with the same cards, which the constructor below takes as its argument.
\<close>

definition unshuffled_deck :: "card list" where
  "unshuffled_deck = concat (map (\<lambda>suit. map (\<lambda>val. val @ suit) deck_values) deck_suits)"

definition is_shuffle :: "card list \<Rightarrow> bool" where
  "is_shuffle d = (mset d = mset unshuffled_deck)"

definition get_rank :: "card \<Rightarrow> string" where
  "get_rank crd = butlast crd"

definition get_suit :: "card \<Rightarrow> py_error + string" where
  "get_suit crd = (if crd = [] then Inl IndexError else Inr [last crd])"

fun index_of :: "'a list \<Rightarrow> 'a \<Rightarrow> nat option" where
  "index_of [] r = None"
| "index_of (x # xs) r = (if x = r then Some 0 else map_option Suc (index_of xs r))"

definition rank_index :: "string \<Rightarrow> py_error + nat" where
  "rank_index r = (case index_of DECK_ORDER r of None \<Rightarrow> Inl ValueError | Some i \<Rightarrow> Inr i)"

definition red_suits :: "string list" where
  "red_suits = [''H'', ''D'']"

definition black_suits :: "string list" where
  "black_suits = [''C'', ''S'']"

text \<open>
  \<open>is_opposite_color\<close> is \<open>(a and b) or (c and d)\<close> with Python's short-circuit
  evaluation: \<open>get_suit(c2)\<close> is only evaluated after the test on \<open>get_suit(c1)\<close>
  in the same conjunction has succeeded.
\<close>

definition is_opposite_color :: "card \<Rightarrow> card \<Rightarrow> py_error + bool" where
  "is_opposite_color c1 c2 =
     (case get_suit c1 of
        Inl e \<Rightarrow> Inl e
      | Inr s1 \<Rightarrow>
          if s1 \<in> set red_suits then
            (case get_suit c2 of
               Inl e \<Rightarrow> Inl e
             | Inr s2 \<Rightarrow>
                 if s2 \<in> set black_suits then Inr True
                 else if s1 \<in> set black_suits then Inr (s2 \<in> set red_suits)
                 else Inr False)
          else if s1 \<in> set black_suits then
            (case get_suit c2 of
               Inl e \<Rightarrow> Inl e
             | Inr s2 \<Rightarrow> Inr (s2 \<in> set red_suits))
          else Inr False)"

definition is_valid_tableau_move :: "card list \<Rightarrow> card \<Rightarrow> py_error + bool" where
  "is_valid_tableau_move target_up top_card =
     (if target_up = [] then Inr (get_rank top_card = ''K'')
      else
        let target_top = last target_up in
        (case rank_index (get_rank top_card) of
           Inl e \<Rightarrow> Inl e
         | Inr a \<Rightarrow>
             (case rank_index (get_rank target_top) of
                Inl e \<Rightarrow> Inl e
              | Inr b \<Rightarrow>
                  if a + 1 = b then is_opposite_color top_card target_top
                  else Inr False)))"

definition is_valid_foundation_move :: "card list \<Rightarrow> card \<Rightarrow> string \<Rightarrow> py_error + bool" where
  "is_valid_foundation_move foundation_cards crd suit =
     (case get_suit crd of
        Inl e \<Rightarrow> Inl e
      | Inr s \<Rightarrow>
          if s \<noteq> suit then Inr False
          else if foundation_cards = [] then Inr (get_rank crd = ''A'')
          else
            let top = last foundation_cards in
            (case rank_index (get_rank crd) of
               Inl e \<Rightarrow> Inl e
             | Inr a \<Rightarrow>
                 (case rank_index (get_rank top) of
                    Inl e \<Rightarrow> Inl e
                  | Inr b \<Rightarrow> Inr (a = b + 1))))"

subsection \<open>The card model of the specification\<close>

text \<open>
  The specification speaks of a card as a pair of a rank in A, 2..10, J, Q, K and a suit
  in Hearts, Diamonds, Clubs, Spades, with a colour derived from the suit and a 0-based
  rank index.  The definitions of this subsection follow the specification's words; the
  validators of the source are compared with them through \<open>card_name\<close>, the string the
  source uses for the card.
\<close>

datatype rank = Ace | Two | Three | Four | Five | Six | Seven | Eight | Nine | Ten
  | Jack | Queen | King

datatype suit = Hearts | Diamonds | Clubs | Spades

datatype color = Red | Black

type_synonym spec_card = "rank \<times> suit"

fun spec_rankIndex :: "rank \<Rightarrow> nat" where
  "spec_rankIndex Ace = 0"
| "spec_rankIndex Two = 1"
| "spec_rankIndex Three = 2"
| "spec_rankIndex Four = 3"
| "spec_rankIndex Five = 4"
| "spec_rankIndex Six = 5"
| "spec_rankIndex Seven = 6"
| "spec_rankIndex Eight = 7"
| "spec_rankIndex Nine = 8"
| "spec_rankIndex Ten = 9"
| "spec_rankIndex Jack = 10"
| "spec_rankIndex Queen = 11"
| "spec_rankIndex King = 12"

fun spec_colorOf :: "suit \<Rightarrow> color" where
  "spec_colorOf Hearts = Red"
| "spec_colorOf Diamonds = Red"
| "spec_colorOf Clubs = Black"
| "spec_colorOf Spades = Black"

definition spec_isOppositeColor :: "spec_card \<Rightarrow> spec_card \<Rightarrow> bool" where
  "spec_isOppositeColor a b = (spec_colorOf (snd a) \<noteq> spec_colorOf (snd b))"

definition spec_isValidTableauMove :: "spec_card list \<Rightarrow> spec_card \<Rightarrow> bool" where
  "spec_isValidTableauMove destinationFaceUpRun movingBottomCard =
     (if destinationFaceUpRun = [] then fst movingBottomCard = King
      else spec_rankIndex (fst movingBottomCard) + 1
             = spec_rankIndex (fst (last destinationFaceUpRun))
           \<and> spec_isOppositeColor movingBottomCard (last destinationFaceUpRun))"

definition spec_isValidFoundationMove :: "spec_card list \<Rightarrow> spec_card \<Rightarrow> suit \<Rightarrow> bool" where
  "spec_isValidFoundationMove foundationSequence crd assignedSuit =
     (if snd crd \<noteq> assignedSuit then False
      else if foundationSequence = [] then fst crd = Ace
      else spec_rankIndex (fst crd) = spec_rankIndex (fst (last foundationSequence)) + 1)"

fun rank_name :: "rank \<Rightarrow> string" where
  "rank_name Ace = ''A''"
| "rank_name Two = ''2''"
| "rank_name Three = ''3''"
| "rank_name Four = ''4''"
| "rank_name Five = ''5''"
| "rank_name Six = ''6''"
| "rank_name Seven = ''7''"
| "rank_name Eight = ''8''"
| "rank_name Nine = ''9''"
| "rank_name Ten = ''10''"
| "rank_name Jack = ''J''"
| "rank_name Queen = ''Q''"
| "rank_name King = ''K''"

fun suit_name :: "suit \<Rightarrow> string" where
  "suit_name Hearts = ''H''"
| "suit_name Diamonds = ''D''"
| "suit_name Clubs = ''C''"
| "suit_name Spades = ''S''"

definition card_name :: "spec_card \<Rightarrow> card" where
  "card_name c = rank_name (fst c) @ suit_name (snd c)"

section \<open>The game: class \<open>Solitaire\<close>\<close>

subsection \<open>Layout constants and rectangles\<close>

definition WIDTH :: int where "WIDTH = 1000"
definition HEIGHT :: int where "HEIGHT = 650"
definition TABLEAU_SPACING :: int where "TABLEAU_SPACING = 20"
definition STOCK_X :: int where "STOCK_X = 50"
definition STOCK_Y :: int where "STOCK_Y = 50"
definition WASTE_X :: int where "WASTE_X = 50"
definition WASTE_Y :: int where "WASTE_Y = 200"
definition TABLEAU_START_X :: int where "TABLEAU_START_X = 160"
definition TABLEAU_START_Y :: int where "TABLEAU_START_Y = 50"
definition UNDO_BTN_WIDTH :: int where "UNDO_BTN_WIDTH = 80"
definition UNDO_BTN_HEIGHT :: int where "UNDO_BTN_HEIGHT = 30"
definition RESHUFFLE_BTN_WIDTH :: int where "RESHUFFLE_BTN_WIDTH = 100"
definition RESHUFFLE_BTN_HEIGHT :: int where "RESHUFFLE_BTN_HEIGHT = 30"
definition CARD_WIDTH :: int where "CARD_WIDTH = 90"
definition CARD_HEIGHT :: int where "CARD_HEIGHT = 130"

text \<open>
  A \<open>pygame.Rect\<close> is (left, top, width, height); \<open>collidepoint\<close> holds for the points
  with \<open>left \<le> x < left + width\<close> and \<open>top \<le> y < top + height\<close>.  An event position is
  a pair of integers.
\<close>

type_synonym rect = "int \<times> int \<times> int \<times> int"
type_synonym pos = "int \<times> int"

fun collidepoint :: "rect \<Rightarrow> pos \<Rightarrow> bool" where
  "collidepoint (lft, tp, w, h) (px, py) =
     (lft \<le> px \<and> px < lft + w \<and> tp \<le> py \<and> py < tp + h)"

text \<open>The rectangles \<open>__init__\<close> stores in the object; they never change.\<close>

definition foundation_rects :: "rect list" where
  "foundation_rects =
     map (\<lambda>i. (WIDTH - (CARD_WIDTH + 20), 20 + int i * (CARD_HEIGHT + 15), CARD_WIDTH, CARD_HEIGHT))
       [0..<4]"

definition foundation_suits :: "string list" where
  "foundation_suits = [''H'', ''D'', ''C'', ''S'']"

definition undo_rect :: rect where
  "undo_rect = (10, HEIGHT - 40, UNDO_BTN_WIDTH, UNDO_BTN_HEIGHT)"

definition reshuffle_rect :: rect where
  "reshuffle_rect =
     (WIDTH - RESHUFFLE_BTN_WIDTH - 10, HEIGHT - 40, RESHUFFLE_BTN_WIDTH, RESHUFFLE_BTN_HEIGHT)"

definition play_again_rect :: rect where
  "play_again_rect = (WIDTH div 2 - 60, HEIGHT div 2 + 50, 120, 40)"

definition stock_rect :: rect where
  "stock_rect = (STOCK_X, STOCK_Y, CARD_WIDTH, CARD_HEIGHT)"

subsection \<open>State\<close>

text \<open>
  A tableau pile is the dictionary \<open>{"down": [...], "up": [...]}\<close>; lists grow at the
  end, so the last element of a list is the top card.  \<open>saved_state\<close> is the dictionary
  \<open>save_state\<close> returns.  The drag state is \<open>None\<close> or the tuple
  \<open>(source, subpile, origin_index, dx, dy)\<close>, with \<open>source\<close> one of the two strings
  \<open>'waste'\<close> and \<open>'tableau'\<close> and \<open>origin_index\<close> \<open>None\<close> for the waste.
  \<open>solitaire\<close> holds the attributes of the object that the handlers read or write; the
  constant rectangles and suit labels are the definitions above, and \<open>start_time\<close>, which
  only the display reads, is left out.
\<close>

record pile =
  down :: "card list"
  up :: "card list"

record saved_state =
  s_tableau :: "pile list"
  s_stock :: "card list"
  s_waste :: "card list"
  s_spent :: "card list"
  s_foundations :: "card list list"
  s_move_count :: int
  s_game_over :: bool

datatype drag_source = FromWaste | FromTableau

type_synonym drag = "drag_source \<times> card list \<times> nat option \<times> int \<times> int"

record solitaire =
  deck :: "card list"
  tableau :: "pile list"
  stock :: "card list"
  waste :: "card list"
  spent :: "card list"
  foundations :: "card list list"
  dragging :: "drag option"
  move_count :: int
  history :: "saved_state list"
  game_over :: bool

text \<open>\<open>xs[i]\<close> for a non-negative index: \<open>IndexError\<close> out of range.\<close>

definition py_get :: "'a list \<Rightarrow> nat \<Rightarrow> py_error + 'a" where
  "py_get xs i = (if i < length xs then Inr (xs ! i) else Inl IndexError)"

subsection \<open>Construction and the deal\<close>

text \<open>
  \<open>setup_tableau\<close>: the inner loop \<open>for j in range(i + 1)\<close> is \<open>deal_pile\<close>, the outer
  loop \<open>for i in range(7)\<close> is \<open>deal_piles\<close>; \<open>used\<close> is threaded through both.
  \<open>self.deck[used]\<close> raises \<open>IndexError\<close> when the deck is too short.
\<close>

fun deal_pile :: "card list \<Rightarrow> nat \<Rightarrow> nat list \<Rightarrow> pile \<times> nat \<Rightarrow> py_error + pile \<times> nat" where
  "deal_pile dk i [] (p, used) = Inr (p, used)"
| "deal_pile dk i (j # js) (p, used) =
     (case py_get dk used of
        Inl e \<Rightarrow> Inl e
      | Inr c \<Rightarrow>
          deal_pile dk i js
            ((if j < i then p\<lparr>down := down p @ [c]\<rparr> else p\<lparr>up := up p @ [c]\<rparr>), used + 1))"

fun deal_piles :: "card list \<Rightarrow> nat list \<Rightarrow> pile list \<times> nat \<Rightarrow> py_error + pile list \<times> nat" where
  "deal_piles dk [] (tab, used) = Inr (tab, used)"
| "deal_piles dk (i # rest) (tab, used) =
     (case py_get tab i of
        Inl e \<Rightarrow> Inl e
      | Inr p \<Rightarrow>
          (case deal_pile dk i [0..<i + 1] (p, used) of
             Inl e \<Rightarrow> Inl e
           | Inr (p', used') \<Rightarrow> deal_piles dk rest (tab[i := p'], used')))"

definition setup_tableau :: "pile list \<Rightarrow> card list \<Rightarrow> py_error + pile list \<times> card list" where
  "setup_tableau tab dk =
     (case deal_piles dk [0..<7] (tab, 0) of
        Inl e \<Rightarrow> Inl e
      | Inr (tab', used) \<Rightarrow> Inr (tab', drop 28 dk))"

text \<open>
  \<open>__init__\<close>.  Its argument is the list \<open>create_full_deck()\<close> returned, that is the
  outcome of the shuffle.
\<close>

definition Solitaire_init :: "card list \<Rightarrow> py_error + solitaire" where
  "Solitaire_init shuffled =
     (case setup_tableau (replicate 7 \<lparr>down = [], up = []\<rparr>) shuffled of
        Inl e \<Rightarrow> Inl e
      | Inr (tab, dk) \<Rightarrow>
          Inr \<lparr>deck = dk, tableau = tab, stock = dk, waste = [], spent = [],
               foundations = replicate 4 [], dragging = None, move_count = 0,
               history = [], game_over = False\<rparr>)"

subsection \<open>Snapshots and undo\<close>

definition save_state :: "solitaire \<Rightarrow> saved_state" where
  "save_state g =
     \<lparr>s_tableau = tableau g, s_stock = stock g, s_waste = waste g, s_spent = spent g,
      s_foundations = foundations g, s_move_count = move_count g, s_game_over = game_over g\<rparr>"

definition load_state :: "solitaire \<Rightarrow> saved_state \<Rightarrow> solitaire" where
  "load_state g state =
     g\<lparr>tableau := s_tableau state, stock := s_stock state, waste := s_waste state,
       spent := s_spent state, foundations := s_foundations state,
       move_count := s_move_count state, game_over := s_game_over state\<rparr>"

definition handle_undo :: "solitaire \<Rightarrow> solitaire" where
  "handle_undo g =
     (if history g \<noteq> [] then
        let prev_state = last (history g);
            g1 = g\<lparr>history := butlast (history g)\<rparr>;
            g2 = load_state g1 prev_state
        in g2\<lparr>move_count := max 0 (move_count g2 - 1)\<rparr>
      else g)"

subsection \<open>Snapshots in a store of mutable lists\<close>

text \<open>
  The records above hold values, so a snapshot there can never be changed through the
  live state.  Whether the program's snapshots are independent depends on which list
  objects are shared, so \<open>save_state\<close> and \<open>load_state\<close> are modelled a second time
  over an explicit store.  An object is a list of strings (the stock, the waste, the
  spent pile, a pile's \<open>down\<close> or \<open>up\<close> list, one foundation), a pile dictionary holding
  the references of its two lists, or a list of references (\<open>self.tableau\<close>,
  \<open>self.foundations\<close>).  The store is the list of the objects allocated so far and an
  address is an index into it; strings, integers and booleans are immutable values.
  \<open>field_refs\<close> is the table of the seven saved fields: the attributes of the live
  object, or the dictionary \<open>save_state\<close> returns.
\<close>

type_synonym addr = nat

datatype obj = StrList "card list" | PileDict addr addr | RefList "addr list"

type_synonym heap = "obj list"

record field_refs =
  r_tableau :: addr
  r_stock :: addr
  r_waste :: addr
  r_spent :: addr
  r_foundations :: addr
  r_move_count :: int
  r_game_over :: bool

text \<open>
  Reading a value through a reference; \<open>None\<close> when the reference dangles or the object
  has another shape than the program gives the field.  \<open>read_state\<close> reads the seven
  fields into the record of the value model.
\<close>

definition read_strs :: "heap \<Rightarrow> addr \<Rightarrow> card list option" where
  "read_strs h a =
     (if a < length h then (case h ! a of StrList xs \<Rightarrow> Some xs | _ \<Rightarrow> None) else None)"

definition read_pile :: "heap \<Rightarrow> addr \<Rightarrow> pile option" where
  "read_pile h a =
     (if a < length h then
        (case h ! a of
           PileDict d u \<Rightarrow>
             (case read_strs h d of
                None \<Rightarrow> None
              | Some ds \<Rightarrow>
                  (case read_strs h u of
                     None \<Rightarrow> None
                   | Some us \<Rightarrow> Some \<lparr>down = ds, up = us\<rparr>))
         | _ \<Rightarrow> None)
      else None)"

definition read_refs :: "(heap \<Rightarrow> addr \<Rightarrow> 'a option) \<Rightarrow> heap \<Rightarrow> addr \<Rightarrow> 'a list option" where
  "read_refs rd h a =
     (if a < length h then
        (case h ! a of RefList rs \<Rightarrow> those (map (rd h) rs) | _ \<Rightarrow> None)
      else None)"

definition read_state :: "heap \<Rightarrow> field_refs \<Rightarrow> saved_state option" where
  "read_state h r =
     (case read_refs read_pile h (r_tableau r) of
        None \<Rightarrow> None
      | Some t \<Rightarrow>
     (case read_strs h (r_stock r) of
        None \<Rightarrow> None
      | Some s \<Rightarrow>
     (case read_strs h (r_waste r) of
        None \<Rightarrow> None
      | Some w \<Rightarrow>
     (case read_strs h (r_spent r) of
        None \<Rightarrow> None
      | Some sp \<Rightarrow>
     (case read_refs read_strs h (r_foundations r) of
        None \<Rightarrow> None
      | Some f \<Rightarrow>
          Some \<lparr>s_tableau = t, s_stock = s, s_waste = w, s_spent = sp, s_foundations = f,
                s_move_count = r_move_count r, s_game_over = r_game_over r\<rparr>)))))"

text \<open>
  \<open>copy.deepcopy\<close> builds a fresh object for every list and dictionary it meets:
  \<open>copy_strs\<close>, \<open>copy_pile\<close> and \<open>copy_refs\<close> do so for the three shapes, appending the
  new objects to the store.  The memo table of \<open>deepcopy\<close> only matters when one list
  is referenced twice inside the copied value; the copy then refers twice to one fresh
  list where the functions here make two equal fresh lists.  \<open>copy_fields\<close> copies the
  five list fields in the order of the source and takes the two scalars over.
\<close>

definition copy_strs :: "heap \<Rightarrow> addr \<Rightarrow> (heap \<times> addr) option" where
  "copy_strs h a =
     (case read_strs h a of
        None \<Rightarrow> None
      | Some xs \<Rightarrow> Some (h @ [StrList xs], length h))"

definition copy_pile :: "heap \<Rightarrow> addr \<Rightarrow> (heap \<times> addr) option" where
  "copy_pile h a =
     (if a < length h then
        (case h ! a of
           PileDict d u \<Rightarrow>
             (case copy_strs h d of
                None \<Rightarrow> None
              | Some (h1, d') \<Rightarrow>
                  (case copy_strs h1 u of
                     None \<Rightarrow> None
                   | Some (h2, u') \<Rightarrow> Some (h2 @ [PileDict d' u'], length h2)))
         | _ \<Rightarrow> None)
      else None)"

fun copy_all ::
    "(heap \<Rightarrow> addr \<Rightarrow> (heap \<times> addr) option) \<Rightarrow> heap \<Rightarrow> addr list \<Rightarrow> (heap \<times> addr list) option" where
  "copy_all cp h [] = Some (h, [])"
| "copy_all cp h (r # rs) =
     (case cp h r of
        None \<Rightarrow> None
      | Some (h1, r') \<Rightarrow>
          (case copy_all cp h1 rs of
             None \<Rightarrow> None
           | Some (h2, rs') \<Rightarrow> Some (h2, r' # rs')))"

definition copy_refs ::
    "(heap \<Rightarrow> addr \<Rightarrow> (heap \<times> addr) option) \<Rightarrow> heap \<Rightarrow> addr \<Rightarrow> (heap \<times> addr) option" where
  "copy_refs cp h a =
     (if a < length h then
        (case h ! a of
           RefList rs \<Rightarrow>
             (case copy_all cp h rs of
                None \<Rightarrow> None
              | Some (h1, rs') \<Rightarrow> Some (h1 @ [RefList rs'], length h1))
         | _ \<Rightarrow> None)
      else None)"

definition copy_fields :: "heap \<Rightarrow> field_refs \<Rightarrow> (heap \<times> field_refs) option" where
  "copy_fields h r =
     (case copy_refs copy_pile h (r_tableau r) of
        None \<Rightarrow> None
      | Some (h1, t) \<Rightarrow>
     (case copy_strs h1 (r_stock r) of
        None \<Rightarrow> None
      | Some (h2, s) \<Rightarrow>
     (case copy_strs h2 (r_waste r) of
        None \<Rightarrow> None
      | Some (h3, w) \<Rightarrow>
     (case copy_strs h3 (r_spent r) of
        None \<Rightarrow> None
      | Some (h4, sp) \<Rightarrow>
     (case copy_refs copy_strs h4 (r_foundations r) of
        None \<Rightarrow> None
      | Some (h5, f) \<Rightarrow>
          Some (h5, \<lparr>r_tableau = t, r_stock = s, r_waste = w, r_spent = sp, r_foundations = f,
                     r_move_count = r_move_count r, r_game_over = r_game_over r\<rparr>))))))"

text \<open>
  \<open>save_state\<close> returns the dictionary of the copies; \<open>load_state\<close> assigns copies of
  the dictionary's values to the attributes of \<open>self\<close>.
\<close>

definition heap_save_state :: "heap \<Rightarrow> field_refs \<Rightarrow> (heap \<times> field_refs) option" where
  "heap_save_state h self = copy_fields h self"

definition heap_load_state ::
    "heap \<Rightarrow> field_refs \<Rightarrow> field_refs \<Rightarrow> (heap \<times> field_refs) option" where
  "heap_load_state h self state = copy_fields h state"

subsection \<open>Stock, win detection and the two drop outcomes\<close>

definition click_stock :: "solitaire \<Rightarrow> solitaire" where
  "click_stock g =
     (if stock g = [] then
        (if waste g \<noteq> [] \<or> spent g \<noteq> [] then
           g\<lparr>stock := rev (spent g @ waste g), waste := [], spent := []\<rparr>
         else g)
      else
        let c = last (stock g);
            g1 = g\<lparr>stock := butlast (stock g)\<rparr>;
            g2 = (if length (waste g1) = 3
                  then g1\<lparr>waste := tl (waste g1), spent := spent g1 @ [hd (waste g1)]\<rparr>
                  else g1)
        in g2\<lparr>waste := waste g2 @ [c]\<rparr>)"

definition check_for_win :: "solitaire \<Rightarrow> solitaire" where
  "check_for_win g =
     (let total_in_foundations = sum_list (map length (foundations g))
      in if total_in_foundations = 52 then g\<lparr>game_over := True\<rparr> else g)"

definition on_drop_success ::
    "solitaire \<Rightarrow> drag_source \<Rightarrow> card list \<Rightarrow> nat option \<Rightarrow> py_error + solitaire" where
  "on_drop_success g source subpile origin_index =
     (case (if source = FromTableau then
              (case origin_index of
                 None \<Rightarrow> Inl TypeError
               | Some oi \<Rightarrow>
                   (case py_get (tableau g) oi of
                      Inl e \<Rightarrow> Inl e
                    | Inr p \<Rightarrow>
                        if up p = [] \<and> down p \<noteq> []
                        then Inr (g\<lparr>tableau := (tableau g)
                                   [oi := p\<lparr>up := up p @ [last (down p)], down := butlast (down p)\<rparr>]\<rparr>)
                        else Inr g))
            else Inr g) of
        Inl e \<Rightarrow> Inl e
      | Inr g1 \<Rightarrow> Inr (check_for_win (g1\<lparr>move_count := move_count g1 + 1\<rparr>)))"

definition on_drop_fail ::
    "solitaire \<Rightarrow> drag_source \<Rightarrow> card list \<Rightarrow> nat option \<Rightarrow> py_error + solitaire" where
  "on_drop_fail g source subpile origin_index =
     (if source = FromWaste then Inr (g\<lparr>waste := waste g @ subpile\<rparr>)
      else
        (case origin_index of
           None \<Rightarrow> Inl TypeError
         | Some oi \<Rightarrow>
             (case py_get (tableau g) oi of
                Inl e \<Rightarrow> Inl e
              | Inr p \<Rightarrow> Inr (g\<lparr>tableau := (tableau g)[oi := p\<lparr>up := up p @ subpile\<rparr>]\<rparr>))))"

subsection \<open>\<open>handle_mouse_down\<close>\<close>

text \<open>
  The scan of one pile, \<open>for cindex in range(len(pile["up"]) - 1, -1, -1)\<close>, is
  \<open>find_card\<close> over the indices in that order; the scan of the piles,
  \<open>for i, pile in enumerate(self.tableau)\<close>, is \<open>find_lift\<close>.  Both stop at the first
  rectangle that holds the position.
\<close>

fun find_card :: "int \<Rightarrow> int \<Rightarrow> pos \<Rightarrow> nat list \<Rightarrow> nat option" where
  "find_card x y ps [] = None"
| "find_card x y ps (cindex # rest) =
     (if collidepoint (x, y + int cindex * TABLEAU_SPACING, CARD_WIDTH, CARD_HEIGHT) ps
      then Some cindex
      else find_card x y ps rest)"

fun find_lift :: "pos \<Rightarrow> (nat \<times> pile) list \<Rightarrow> (nat \<times> nat) option" where
  "find_lift ps [] = None"
| "find_lift ps ((i, p) # rest) =
     (let x = TABLEAU_START_X + int i * (CARD_WIDTH + 10);
          y = TABLEAU_START_Y + int (length (down p)) * TABLEAU_SPACING
      in case find_card x y ps (rev [0..<length (up p)]) of
           Some cindex \<Rightarrow> Some (i, cindex)
         | None \<Rightarrow> find_lift ps rest)"

definition waste_top_rect :: "solitaire \<Rightarrow> rect" where
  "waste_top_rect g =
     (WASTE_X, WASTE_Y + (int (length (waste g)) - 1) * TABLEAU_SPACING, CARD_WIDTH, CARD_HEIGHT)"

definition lift_waste :: "solitaire \<Rightarrow> pos \<Rightarrow> solitaire" where
  "lift_waste g ps =
     (let g1 = g\<lparr>history := history g @ [save_state g]\<rparr>;
          c = last (waste g1);
          g2 = g1\<lparr>waste := butlast (waste g1)\<rparr>;
          subpile = [c];
          dx = fst ps - WASTE_X;
          dy = snd ps - (WASTE_Y + (int (length (waste g)) - 1) * TABLEAU_SPACING)
      in g2\<lparr>dragging := Some (FromWaste, subpile, None, dx, dy)\<rparr>)"

definition lift_tableau :: "solitaire \<Rightarrow> pos \<Rightarrow> nat \<Rightarrow> nat \<Rightarrow> solitaire" where
  "lift_tableau g ps i cindex =
     (let g1 = g\<lparr>history := history g @ [save_state g]\<rparr>;
          p = tableau g1 ! i;
          subpile = drop cindex (up p);
          g2 = g1\<lparr>tableau := (tableau g1)[i := p\<lparr>up := take cindex (up p)\<rparr>]\<rparr>;
          dx = fst ps - (TABLEAU_START_X + int i * (CARD_WIDTH + 10));
          dy = snd ps - (TABLEAU_START_Y + int (length (down p)) * TABLEAU_SPACING
                          + int cindex * TABLEAU_SPACING)
      in g2\<lparr>dragging := Some (FromTableau, subpile, Some i, dx, dy)\<rparr>)"

text \<open>
  \<open>handle_mouse_down\<close>, branch by branch in the order of the source: the win screen,
  the undo button, the reshuffle button, the stock, the top of the waste, the tableau.
  \<open>shuffled\<close> is the deck a new game would be dealt from.
\<close>

definition handle_mouse_down :: "solitaire \<Rightarrow> pos \<Rightarrow> card list \<Rightarrow> py_error + solitaire" where
  "handle_mouse_down g ps shuffled =
     (if game_over g then
        (if collidepoint play_again_rect ps then Solitaire_init shuffled else Inr g)
      else if collidepoint undo_rect ps then Inr (handle_undo g)
      else if collidepoint reshuffle_rect ps then Solitaire_init shuffled
      else if collidepoint stock_rect ps then
        (let g1 = g\<lparr>history := history g @ [save_state g]\<rparr>;
             g2 = click_stock g1;
             g3 = g2\<lparr>move_count := move_count g2 + 1\<rparr>
         in Inr (check_for_win g3))
      else if waste g \<noteq> [] \<and> collidepoint (waste_top_rect g) ps then Inr (lift_waste g ps)
      else
        (case find_lift ps (List.enumerate 0 (tableau g)) of
           Some (i, cindex) \<Rightarrow> Inr (lift_tableau g ps i cindex)
         | None \<Rightarrow> Inr g))"

subsection \<open>\<open>handle_mouse_up\<close>\<close>

text \<open>
  The foundation loop returns from inside at the first foundation whose rectangle holds
  the position and accepts the card, and goes on to the next rectangle otherwise;
  \<open>foundation_drop\<close> gives that foundation's index.  The tableau loop stops (\<open>break\<close>) at
  the first pile whose drop rectangle holds the position, whether the move is valid or
  not; \<open>tableau_drop\<close> gives the pile's index when the move was placed.
\<close>

fun foundation_drop ::
    "solitaire \<Rightarrow> pos \<Rightarrow> card \<Rightarrow> (nat \<times> rect) list \<Rightarrow> py_error + nat option" where
  "foundation_drop g ps top_card [] = Inr None"
| "foundation_drop g ps top_card ((i, r) # rest) =
     (if collidepoint r ps then
        (case py_get (foundations g) i of
           Inl e \<Rightarrow> Inl e
         | Inr f \<Rightarrow>
             (case py_get foundation_suits i of
                Inl e \<Rightarrow> Inl e
              | Inr s \<Rightarrow>
                  (case is_valid_foundation_move f top_card s of
                     Inl e \<Rightarrow> Inl e
                   | Inr ok \<Rightarrow>
                       if ok then Inr (Some i) else foundation_drop g ps top_card rest)))
      else foundation_drop g ps top_card rest)"

definition drop_rect :: "nat \<Rightarrow> pile \<Rightarrow> rect" where
  "drop_rect i p =
     (TABLEAU_START_X + int i * (CARD_WIDTH + 10),
      TABLEAU_START_Y + (int (length (down p)) + int (length (up p))) * TABLEAU_SPACING,
      CARD_WIDTH, CARD_HEIGHT)"

fun tableau_drop :: "pos \<Rightarrow> card \<Rightarrow> (nat \<times> pile) list \<Rightarrow> py_error + nat option" where
  "tableau_drop ps top_card [] = Inr None"
| "tableau_drop ps top_card ((i, p) # rest) =
     (if collidepoint (drop_rect i p) ps then
        (case is_valid_tableau_move (up p) top_card of
           Inl e \<Rightarrow> Inl e
         | Inr ok \<Rightarrow> Inr (if ok then Some i else None))
      else tableau_drop ps top_card rest)"

definition handle_mouse_up :: "solitaire \<Rightarrow> pos \<Rightarrow> py_error + solitaire" where
  "handle_mouse_up g ps =
     (case dragging g of
        None \<Rightarrow> Inr g
      | Some (source, subpile, origin_index, dx, dy) \<Rightarrow>
          (case py_get subpile 0 of
             Inl e \<Rightarrow> Inl e
           | Inr top_card \<Rightarrow>
               (case (if length subpile = 1
                      then foundation_drop g ps top_card (List.enumerate 0 foundation_rects)
                      else Inr None) of
                  Inl e \<Rightarrow> Inl e
                | Inr (Some i) \<Rightarrow>
                    on_drop_success
                      (g\<lparr>foundations := (foundations g)[i := foundations g ! i @ [top_card]],
                         dragging := None\<rparr>)
                      source subpile origin_index
                | Inr None \<Rightarrow>
                    (case tableau_drop ps top_card (List.enumerate 0 (tableau g)) of
                       Inl e \<Rightarrow> Inl e
                     | Inr (Some i) \<Rightarrow>
                         (case on_drop_success
                                 (g\<lparr>tableau := (tableau g)
                                      [i := (tableau g ! i)\<lparr>up := up (tableau g ! i) @ subpile\<rparr>]\<rparr>)
                                 source subpile origin_index of
                            Inl e \<Rightarrow> Inl e
                          | Inr g1 \<Rightarrow> Inr (g1\<lparr>dragging := None\<rparr>))
                     | Inr None \<Rightarrow>
                         (case on_drop_fail g source subpile origin_index of
                            Inl e \<Rightarrow> Inl e
                          | Inr g1 \<Rightarrow> Inr (g1\<lparr>dragging := None\<rparr>))))))"

subsection \<open>The event loop\<close>

text \<open>
  \<open>main\<close> hands every \<open>MOUSEBUTTONDOWN\<close>, \<open>MOUSEBUTTONUP\<close> and \<open>MOUSEMOTION\<close> event to
  the matching handler, whatever the button.  \<open>handle_mouse_motion\<close> only sets the
  cursor.  A \<open>MOUSEBUTTONDOWN\<close> event carries, besides its position, the deck the shuffle
  would produce if the handler starts a new game.
\<close>

datatype event = MOUSEBUTTONDOWN pos "card list" | MOUSEBUTTONUP pos | MOUSEMOTION pos

definition handle_mouse_motion :: "solitaire \<Rightarrow> pos \<Rightarrow> solitaire" where
  "handle_mouse_motion g ps = g"

fun dispatch :: "solitaire \<Rightarrow> event \<Rightarrow> py_error + solitaire" where
  "dispatch g (MOUSEBUTTONDOWN ps shuffled) = handle_mouse_down g ps shuffled"
| "dispatch g (MOUSEBUTTONUP ps) = handle_mouse_up g ps"
| "dispatch g (MOUSEMOTION ps) = Inr (handle_mouse_motion g ps)"

fun run_events :: "solitaire \<Rightarrow> event list \<Rightarrow> py_error + solitaire" where
  "run_events g [] = Inr g"
| "run_events g (e # es) =
     (case dispatch g e of Inl err \<Rightarrow> Inl err | Inr g' \<Rightarrow> run_events g' es)"

fun shuffles_ok :: "event list \<Rightarrow> bool" where
  "shuffles_ok [] = True"
| "shuffles_ok (MOUSEBUTTONDOWN ps shuffled # es) = (is_shuffle shuffled \<and> shuffles_ok es)"
| "shuffles_ok (e # es) = shuffles_ok es"

text \<open>
  The states of the running program: a fresh game dealt from a shuffle of the 52 cards,
  followed by any events.
\<close>

definition reachable :: "solitaire \<Rightarrow> bool" where
  "reachable g =
     (\<exists>shuffled es g0. is_shuffle shuffled \<and> shuffles_ok es
        \<and> Solitaire_init shuffled = Inr g0 \<and> run_events g0 es = Inr g)"

section \<open>Notions used in the statements\<close>

text \<open>
  None of the definitions of this section is code of the program: they name the states,
  card collections and outcomes that the properties below speak about.
\<close>

subsection \<open>Well-formed states\<close>

text \<open>
  A valid card is one of the 52 strings of the deck.  A well-formed state has seven
  tableau piles and four foundations, holds valid cards only (also in its snapshots), and
  its drag tuple, if any, carries a non-empty run and, for a tableau lift, the index of
  one of the seven piles.
\<close>

definition valid_card :: "card \<Rightarrow> bool" where
  "valid_card c = (c \<in> set unshuffled_deck)"

definition all_spec_cards :: "spec_card list" where
  "all_spec_cards =
     concat (map (\<lambda>s. map (\<lambda>r. (r, s))
        [Ace, Two, Three, Four, Five, Six, Seven, Eight, Nine, Ten, Jack, Queen, King])
        [Hearts, Diamonds, Clubs, Spades])"

definition pile_ok :: "pile \<Rightarrow> bool" where
  "pile_ok p = (list_all valid_card (down p) \<and> list_all valid_card (up p))"

definition wf_piles ::
    "pile list \<Rightarrow> card list \<Rightarrow> card list \<Rightarrow> card list \<Rightarrow> card list list \<Rightarrow> bool" where
  "wf_piles tab st wa sp fnd =
     (length tab = 7 \<and> length fnd = 4 \<and> list_all pile_ok tab \<and> list_all valid_card st
      \<and> list_all valid_card wa \<and> list_all valid_card sp \<and> list_all (list_all valid_card) fnd)"

definition wf_saved :: "saved_state \<Rightarrow> bool" where
  "wf_saved s = wf_piles (s_tableau s) (s_stock s) (s_waste s) (s_spent s) (s_foundations s)"

fun wf_drag :: "drag \<Rightarrow> bool" where
  "wf_drag (source, subpile, origin_index, dx, dy) =
     (subpile \<noteq> [] \<and> list_all valid_card subpile
      \<and> (case source of
            FromWaste \<Rightarrow> True
          | FromTableau \<Rightarrow> (case origin_index of None \<Rightarrow> False | Some oi \<Rightarrow> oi < 7)))"

definition wf_game :: "solitaire \<Rightarrow> bool" where
  "wf_game g =
     (wf_piles (tableau g) (stock g) (waste g) (spent g) (foundations g)
      \<and> (case dragging g of None \<Rightarrow> True | Some d \<Rightarrow> wf_drag d)
      \<and> list_all wf_saved (history g))"

subsection \<open>The cards of a state\<close>

text \<open>
  \<open>pile_cards\<close> is the multiset of the cards lying in the stock, the waste, the spent
  pile, the seven tableau piles (face-down and face-up) and the four foundations.
\<close>

definition pile_cards :: "solitaire \<Rightarrow> card multiset" where
  "pile_cards g =
     mset (stock g) + mset (waste g) + mset (spent g)
     + sum_list (map (\<lambda>p. mset (down p) + mset (up p)) (tableau g))
     + sum_list (map mset (foundations g))"

subsection \<open>Outcomes of a pointer event\<close>

text \<open>
  \<open>lifts g ps\<close>: a pointer-down at \<open>ps\<close> reaches the waste or the tableau branch of
  \<open>handle_mouse_down\<close> and picks a run up there.
\<close>

definition lifts :: "solitaire \<Rightarrow> pos \<Rightarrow> bool" where
  "lifts g ps =
     (\<not> game_over g \<and> \<not> collidepoint undo_rect ps \<and> \<not> collidepoint reshuffle_rect ps
      \<and> \<not> collidepoint stock_rect ps
      \<and> ((waste g \<noteq> [] \<and> collidepoint (waste_top_rect g) ps)
          \<or> find_lift ps (List.enumerate 0 (tableau g)) \<noteq> None))"

text \<open>
  \<open>no_valid_destination g ps subpile\<close>: the drop position \<open>ps\<close> matches no destination,
  or the validator rejects the run at every destination it matches.  A foundation is a
  destination for a run of one card only.
\<close>

definition no_valid_destination :: "solitaire \<Rightarrow> pos \<Rightarrow> card list \<Rightarrow> bool" where
  "no_valid_destination g ps subpile =
     (list_all (\<lambda>(i, r). collidepoint r ps \<and> length subpile = 1 \<longrightarrow>
          is_valid_foundation_move (foundations g ! i) (hd subpile) (foundation_suits ! i) = Inr False)
        (List.enumerate 0 foundation_rects)
      \<and> list_all (\<lambda>(i, p). collidepoint (drop_rect i p) ps \<longrightarrow>
          is_valid_tableau_move (up p) (hd subpile) = Inr False)
        (List.enumerate 0 (tableau g)))"

text \<open>
  \<open>returned g d\<close>: the run of the drag tuple \<open>d\<close> is back at the end of its origin (the
  waste, or the face-up list of the origin pile), nothing else has changed, and the drag
  state is cleared.
\<close>

definition returned :: "solitaire \<Rightarrow> drag \<Rightarrow> solitaire" where
  "returned g d =
     (case d of (source, subpile, origin_index, dx, dy) \<Rightarrow>
        (case source of
           FromWaste \<Rightarrow> g\<lparr>waste := waste g @ subpile, dragging := None\<rparr>
         | FromTableau \<Rightarrow>
             g\<lparr>tableau := (tableau g)[the origin_index :=
                  (tableau g ! the origin_index)\<lparr>up := up (tableau g ! the origin_index) @ subpile\<rparr>],
               dragging := None\<rparr>))"

text \<open>
  The states a successful drop goes through: the run placed on foundation \<open>i\<close> or on
  tableau pile \<open>i\<close>, the top face-down card of pile \<open>oi\<close> turned over, and the move
  counted and checked for a win.
\<close>

definition placed_on_foundation :: "solitaire \<Rightarrow> nat \<Rightarrow> card \<Rightarrow> solitaire" where
  "placed_on_foundation g i c =
     g\<lparr>foundations := (foundations g)[i := foundations g ! i @ [c]], dragging := None\<rparr>"

definition placed_on_tableau :: "solitaire \<Rightarrow> nat \<Rightarrow> card list \<Rightarrow> solitaire" where
  "placed_on_tableau g i subpile =
     g\<lparr>tableau := (tableau g)[i := (tableau g ! i)\<lparr>up := up (tableau g ! i) @ subpile\<rparr>]\<rparr>"

definition flipped :: "solitaire \<Rightarrow> nat \<Rightarrow> solitaire" where
  "flipped g oi =
     g\<lparr>tableau := (tableau g)[oi := (tableau g ! oi)
          \<lparr>up := up (tableau g ! oi) @ [last (down (tableau g ! oi))],
           down := butlast (down (tableau g ! oi))\<rparr>]\<rparr>"

definition counted :: "solitaire \<Rightarrow> solitaire" where
  "counted g = check_for_win (g\<lparr>move_count := move_count g + 1\<rparr>)"

subsection \<open>Win detection\<close>

text \<open>
  \<open>foundation_total\<close> is the sum \<open>check_for_win\<close> computes.  \<open>win_inv\<close> is the invariant
  behind the win condition: the flag is set exactly when the foundations hold 52 cards,
  no drag is active once the game is over, and every snapshot on the history was taken
  in a game that was not over.  \<open>stock_clicked\<close> is the state the stock branch of
  \<open>handle_mouse_down\<close> returns.
\<close>

definition foundation_total :: "solitaire \<Rightarrow> nat" where
  "foundation_total g = sum_list (map length (foundations g))"

definition win_inv :: "solitaire \<Rightarrow> bool" where
  "win_inv g =
     ((game_over g \<longleftrightarrow> foundation_total g = 52)
      \<and> (game_over g \<longrightarrow> dragging g = None)
      \<and> list_all (\<lambda>s. \<not> s_game_over s \<and> sum_list (map length (s_foundations s)) \<noteq> 52)
           (history g))"

definition stock_clicked :: "solitaire \<Rightarrow> solitaire" where
  "stock_clicked g =
     (let g1 = g\<lparr>history := history g @ [save_state g]\<rparr>;
          g2 = click_stock g1;
          g3 = g2\<lparr>move_count := move_count g2 + 1\<rparr>
      in check_for_win g3)"

subsection \<open>Conservation of the cards and valid runs\<close>

text \<open>
  \<open>all_cards\<close> adds the run of an active drag to the cards of the piles; a state
  conserves the cards when this multiset is the deck.  A face-up run is valid when, from
  bottom to top, each card has a strictly smaller rank index than the card below it and
  the opposite colour.
\<close>

definition drag_cards :: "solitaire \<Rightarrow> card multiset" where
  "drag_cards g = (case dragging g of None \<Rightarrow> {#} | Some (source, subpile, rest) \<Rightarrow> mset subpile)"

definition all_cards :: "solitaire \<Rightarrow> card multiset" where
  "all_cards g = pile_cards g + drag_cards g"

definition conserved :: "solitaire \<Rightarrow> bool" where
  "conserved g = (all_cards g = mset unshuffled_deck)"

fun strictly_descending_alternating :: "card list \<Rightarrow> bool" where
  "strictly_descending_alternating (x # y # rest) =
     ((case (rank_index (get_rank y), rank_index (get_rank x)) of
         (Inr a, Inr b) \<Rightarrow> a < b
       | _ \<Rightarrow> False)
      \<and> is_opposite_color y x = Inr True
      \<and> strictly_descending_alternating (y # rest))"
| "strictly_descending_alternating run = True"

definition tableau_runs_valid :: "solitaire \<Rightarrow> bool" where
  "tableau_runs_valid g = list_all (\<lambda>p. strictly_descending_alternating (up p)) (tableau g)"

subsection \<open>The game dealt from the unshuffled deck\<close>

text \<open>
  \<open>dealt_game\<close> is the fresh game when the shuffle leaves the deck in the order of the
  comprehension (an outcome \<open>random.shuffle\<close> can produce).  \<open>undo_in_drag\<close> and
  \<open>undo_in_drag_dropped\<close> are two states the program reaches from it.
\<close>

definition dealt_game :: solitaire where
  "dealt_game =
     \<lparr>deck = [''3C'', ''4C'', ''5C'', ''6C'', ''7C'', ''8C'', ''9C'', ''10C'', ''JC'', ''QC'', ''KC'']
              @ [''AS'', ''2S'', ''3S'', ''4S'', ''5S'', ''6S'', ''7S'', ''8S'', ''9S'', ''10S'', ''JS'', ''QS'', ''KS''],
      tableau =
        [\<lparr>down = [], up = [''AH'']\<rparr>,
         \<lparr>down = [''2H''], up = [''3H'']\<rparr>,
         \<lparr>down = [''4H'', ''5H''], up = [''6H'']\<rparr>,
         \<lparr>down = [''7H'', ''8H'', ''9H''], up = [''10H'']\<rparr>,
         \<lparr>down = [''JH'', ''QH'', ''KH'', ''AD''], up = [''2D'']\<rparr>,
         \<lparr>down = [''3D'', ''4D'', ''5D'', ''6D'', ''7D''], up = [''8D'']\<rparr>,
         \<lparr>down = [''9D'', ''10D'', ''JD'', ''QD'', ''KD'', ''AC''], up = [''2C'']\<rparr>],
      stock = [''3C'', ''4C'', ''5C'', ''6C'', ''7C'', ''8C'', ''9C'', ''10C'', ''JC'', ''QC'', ''KC'']
              @ [''AS'', ''2S'', ''3S'', ''4S'', ''5S'', ''6S'', ''7S'', ''8S'', ''9S'', ''10S'', ''JS'', ''QS'', ''KS''],
      waste = [], spent = [],
      foundations = [[], [], [], []], dragging = None, move_count = 0,
      history = [], game_over = False\<rparr>"

definition undo_in_drag :: solitaire where
  "undo_in_drag = dealt_game\<lparr>dragging := Some (FromTableau, [''AH''], Some 0, 40, 10)\<rparr>"

definition undo_in_drag_dropped :: solitaire where
  "undo_in_drag_dropped =
     dealt_game\<lparr>tableau := (tableau dealt_game)[0 := \<lparr>down = [], up = [''AH'', ''AH'']\<rparr>]\<rparr>"

subsection \<open>Stores that agree on a range of addresses\<close>

text \<open>
  \<open>agree_on lo hi h h'\<close>: the store \<open>h'\<close> has the objects of \<open>h\<close> at the addresses from
  \<open>lo\<close> up to \<open>hi\<close>; everything else may have been overwritten, and more may have been
  allocated.  A reader is local when a value it reads from a store is read from every
  store with the same objects; a copier copies for a reader when the copy of a readable
  value lies in the objects it appends and reads as the same value.
\<close>

definition agree_on :: "nat \<Rightarrow> nat \<Rightarrow> heap \<Rightarrow> heap \<Rightarrow> bool" where
  "agree_on lo hi h h' = (hi \<le> length h' \<and> list_all (\<lambda>i. h' ! i = h ! i) [lo..<hi])"

definition reads_in :: "(heap \<Rightarrow> addr \<Rightarrow> 'a option) \<Rightarrow> nat \<Rightarrow> nat \<Rightarrow> heap \<Rightarrow> addr \<Rightarrow> 'a \<Rightarrow> bool" where
  "reads_in rd lo hi h a v = (\<forall>h'. agree_on lo hi h h' \<longrightarrow> rd h' a = Some v)"

definition local_reader :: "(heap \<Rightarrow> addr \<Rightarrow> 'a option) \<Rightarrow> bool" where
  "local_reader rd = (\<forall>h a v. rd h a = Some v \<longrightarrow> reads_in rd 0 (length h) h a v)"

definition copies :: "(heap \<Rightarrow> addr \<Rightarrow> (heap \<times> addr) option) \<Rightarrow> (heap \<Rightarrow> addr \<Rightarrow> 'a option) \<Rightarrow> bool" where
  "copies cp rd =
     (\<forall>h a v. rd h a = Some v \<longrightarrow>
        (\<exists>new a'. cp h a = Some (h @ new, a')
           \<and> reads_in rd (length h) (length (h @ new)) (h @ new) a' v))"

subsection \<open>A store to run the snapshot on\<close>

definition example_heap :: heap where
  "example_heap =
     [StrList [''2H''], StrList [''3H''], PileDict 0 1, RefList [2],
      StrList [''3C'', ''4C''], StrList [''5H''], StrList [],
      StrList [''AS''], RefList [7]]"

definition example_self :: field_refs where
  "example_self =
     \<lparr>r_tableau = 3, r_stock = 4, r_waste = 5, r_spent = 6, r_foundations = 8,
      r_move_count = 3, r_game_over = False\<rparr>"

definition example_saved :: saved_state where
  "example_saved =
     \<lparr>s_tableau = [\<lparr>down = [''2H''], up = [''3H'']\<rparr>], s_stock = [''3C'', ''4C''],
      s_waste = [''5H''], s_spent = [], s_foundations = [[''AS'']],
      s_move_count = 3, s_game_over = False\<rparr>"

definition example_new :: heap where
  "example_new =
     [StrList [''2H''], StrList [''3H''], PileDict 9 10, RefList [11],
      StrList [''3C'', ''4C''], StrList [''5H''], StrList [],
      StrList [''AS''], RefList [16]]"

definition example_snap :: field_refs where
  "example_snap =
     \<lparr>r_tableau = 12, r_stock = 13, r_waste = 14, r_spent = 15, r_foundations = 17,
      r_move_count = 3, r_game_over = False\<rparr>"

subsection \<open>Play without a press during a drag\<close>

text \<open>
  \<open>no_press_in_drag g es\<close>: in the run of the events \<open>es\<close> from \<open>g\<close>, no
  \<open>MOUSEBUTTONDOWN\<close> arrives while a run is being dragged (one button, pressed and
  released in turn).  \<open>valid_run\<close> is the chain the validator builds: every card was
  accepted by \<open>is_valid_tableau_move\<close> on the card below it.  A state is \<open>sound\<close> when it
  conserves the cards, every face-up sequence is such a chain, the dragged run is one
  and continues the face-up sequence it was lifted from, and every snapshot holds the 52
  cards in chains.
\<close>

definition tableau_cards :: "pile list \<Rightarrow> card multiset" where
  "tableau_cards tab = sum_list (map (\<lambda>p. mset (down p) + mset (up p)) tab)"

fun valid_run :: "card list \<Rightarrow> bool" where
  "valid_run (x # y # rest) = (is_valid_tableau_move [x] y = Inr True \<and> valid_run (y # rest))"
| "valid_run run = True"

definition runs_ok :: "pile list \<Rightarrow> bool" where
  "runs_ok tab = list_all (\<lambda>p. valid_run (up p)) tab"

definition saved_sound :: "saved_state \<Rightarrow> bool" where
  "saved_sound s =
     (mset (s_stock s) + mset (s_waste s) + mset (s_spent s) + tableau_cards (s_tableau s)
        + sum_list (map mset (s_foundations s)) = mset unshuffled_deck
      \<and> runs_ok (s_tableau s))"

fun drag_sound :: "pile list \<Rightarrow> drag \<Rightarrow> bool" where
  "drag_sound tab (source, subpile, origin_index, dx, dy) =
     (valid_run subpile
      \<and> (case source of
            FromWaste \<Rightarrow> True
          | FromTableau \<Rightarrow>
              (case origin_index of
                 None \<Rightarrow> False
               | Some oi \<Rightarrow> valid_run (up (tab ! oi) @ subpile))))"

definition sound :: "solitaire \<Rightarrow> bool" where
  "sound g =
     (conserved g \<and> runs_ok (tableau g)
      \<and> (case dragging g of None \<Rightarrow> True | Some d \<Rightarrow> drag_sound (tableau g) d)
      \<and> list_all saved_sound (history g))"

fun no_press_in_drag :: "solitaire \<Rightarrow> event list \<Rightarrow> bool" where
  "no_press_in_drag g [] = True"
| "no_press_in_drag g (e # es) =
     ((case e of MOUSEBUTTONDOWN ps shuffled \<Rightarrow> dragging g = None | _ \<Rightarrow> True)
      \<and> (case dispatch g e of Inl err \<Rightarrow> True | Inr g' \<Rightarrow> no_press_in_drag g' es))"

subsection \<open>A state to run the handlers on\<close>

definition example_game :: solitaire where
  "example_game =
     \<lparr>deck = [],
      tableau = [\<lparr>down = [], up = [''9S'']\<rparr>, \<lparr>down = [''3C''], up = [''10H'', ''9C'']\<rparr>,
                 \<lparr>down = [], up = []\<rparr>, \<lparr>down = [], up = []\<rparr>, \<lparr>down = [], up = []\<rparr>,
                 \<lparr>down = [], up = []\<rparr>, \<lparr>down = [], up = []\<rparr>],
      stock = [''2D'', ''KH''], waste = [''5H''], spent = [],
      foundations = [[], [], [], []], dragging = None, move_count = 3,
      history = [], game_over = False\<rparr>"

section \<open>Facts about cards\<close>

lemma suit_name_single: "\<exists>ch. suit_name s = [ch]"
  by (cases s) simp_all

lemma get_rank_card_name: "get_rank (card_name c) = rank_name (fst c)"
proof -
  obtain ch where "suit_name (snd c) = [ch]"
    using suit_name_single by blast
  then show ?thesis
    by (simp add: get_rank_def card_name_def)
qed

lemma get_suit_card_name: "get_suit (card_name c) = Inr (suit_name (snd c))"
proof -
  obtain ch where "suit_name (snd c) = [ch]"
    using suit_name_single by blast
  then show ?thesis
    by (simp add: get_suit_def card_name_def)
qed

lemma rank_index_rank_name: "rank_index (rank_name r) = Inr (spec_rankIndex r)"
  by (cases r) (simp_all add: rank_index_def DECK_ORDER_def)

lemma rank_name_inject: "rank_name r = rank_name r' \<longleftrightarrow> r = r'"
  by (cases r; cases r') simp_all

lemma suit_name_inject: "suit_name s = suit_name s' \<longleftrightarrow> s = s'"
  by (cases s; cases s') simp_all

lemma is_opposite_color_card_name:
  "is_opposite_color (card_name a) (card_name b) = Inr (spec_isOppositeColor a b)"
  by (cases "snd a"; cases "snd b")
    (simp_all add: is_opposite_color_def get_suit_card_name spec_isOppositeColor_def
      red_suits_def black_suits_def)

section \<open>The move validators\<close>

text \<open>
  C6.  For every destination face-up sequence and every moving bottom card, the source's
  \<open>is_valid_tableau_move\<close>, run on the cards' strings, raises nothing and returns the
  specification's verdict: with an empty destination the move is legal exactly when the
  moving card is a King; otherwise exactly when the moving card's rank index plus 1 is the
  destination top card's rank index and the two cards have opposite colours.  The function
  is a pure function of its two arguments: it returns the verdict and nothing else, so no
  state is written.
\<close>

theorem is_valid_tableau_move_refines_spec:
  "is_valid_tableau_move (map card_name destinationFaceUpRun) (card_name movingBottomCard)
     = Inr (spec_isValidTableauMove destinationFaceUpRun movingBottomCard)"
proof (cases "destinationFaceUpRun = []")
  case True
  have "(rank_name (fst movingBottomCard) = ''K'') = (fst movingBottomCard = King)"
    using rank_name_inject [of "fst movingBottomCard" King] by simp
  with True show ?thesis
    by (simp add: is_valid_tableau_move_def spec_isValidTableauMove_def get_rank_card_name)
next
  case False
  then have "last (map card_name destinationFaceUpRun) = card_name (last destinationFaceUpRun)"
    by (simp add: last_map)
  with False show ?thesis
    by (simp add: is_valid_tableau_move_def spec_isValidTableauMove_def get_rank_card_name
        rank_index_rank_name is_opposite_color_card_name)
qed

text \<open>
  C7.  For every foundation sequence, card and assigned suit, the source's
  \<open>is_valid_foundation_move\<close>, run on the cards' strings and the suit's letter, raises
  nothing and returns the specification's verdict: illegal when the card's suit differs
  from the assigned suit; with the suit matching, legal on an empty foundation exactly
  for an Ace, and otherwise exactly when the card's rank index is the foundation top
  card's rank index plus 1.
\<close>

theorem is_valid_foundation_move_refines_spec:
  "is_valid_foundation_move (map card_name foundationSequence) (card_name crd)
       (suit_name assignedSuit)
     = Inr (spec_isValidFoundationMove foundationSequence crd assignedSuit)"
proof (cases "foundationSequence = []")
  case True
  have "(rank_name (fst crd) = ''A'') = (fst crd = Ace)"
    using rank_name_inject [of "fst crd" Ace] by simp
  with True show ?thesis
    by (simp add: is_valid_foundation_move_def spec_isValidFoundationMove_def
        get_rank_card_name get_suit_card_name suit_name_inject)
next
  case False
  then have "last (map card_name foundationSequence) = card_name (last foundationSequence)"
    by (simp add: last_map)
  with False show ?thesis
    by (simp add: is_valid_foundation_move_def spec_isValidFoundationMove_def
        get_rank_card_name get_suit_card_name rank_index_rank_name suit_name_inject)
qed

section \<open>Facts about the valid cards\<close>

lemma unshuffled_deck_names: "unshuffled_deck = map card_name all_spec_cards"
  by (simp add: unshuffled_deck_def all_spec_cards_def card_name_def deck_values_def deck_suits_def)

lemma valid_card_name: "valid_card c \<Longrightarrow> \<exists>sc. c = card_name sc"
  by (auto simp: valid_card_def unshuffled_deck_names)

lemma length_unshuffled_deck: "length unshuffled_deck = 52"
  by (simp add: unshuffled_deck_def deck_values_def deck_suits_def)

lemma distinct_unshuffled_deck: "distinct unshuffled_deck"
  by (simp add: unshuffled_deck_def deck_values_def deck_suits_def)

lemma is_valid_tableau_move_total:
  assumes "valid_card c" and "list_all valid_card t"
  shows "\<exists>b. is_valid_tableau_move t c = Inr b"
proof (cases "t = []")
  case True
  then show ?thesis by (simp add: is_valid_tableau_move_def)
next
  case False
  with assms(2) have "valid_card (last t)" by (simp add: list_all_iff)
  then obtain st where st: "last t = card_name st" using valid_card_name by blast
  from assms(1) obtain sc where sc: "c = card_name sc" using valid_card_name by blast
  show ?thesis using False st sc
    by (auto simp: is_valid_tableau_move_def get_rank_card_name rank_index_rank_name
        is_opposite_color_card_name)
qed

lemma is_valid_foundation_move_total:
  assumes "valid_card c" and "list_all valid_card f"
  shows "\<exists>b. is_valid_foundation_move f c s = Inr b"
proof -
  from assms(1) obtain sc where sc: "c = card_name sc" using valid_card_name by blast
  show ?thesis
  proof (cases "f = []")
    case True
    then show ?thesis using sc
      by (auto simp: is_valid_foundation_move_def get_suit_card_name)
  next
    case False
    with assms(2) have "valid_card (last f)" by (simp add: list_all_iff)
    then obtain st where st: "last f = card_name st" using valid_card_name by blast
    show ?thesis using False st sc
      by (auto simp: is_valid_foundation_move_def get_rank_card_name rank_index_rank_name
          get_suit_card_name)
  qed
qed

section \<open>Facts about the handlers\<close>

lemma find_card_in: "find_card x y ps js = Some c \<Longrightarrow> c \<in> set js"
  by (induction js) (auto split: if_splits)

lemma find_lift_in:
  "find_lift ps ips = Some (i, c) \<Longrightarrow> \<exists>p. (i, p) \<in> set ips \<and> c < length (up p)"
proof (induction ips)
  case Nil
  then show ?case by simp
next
  case (Cons ip ips)
  obtain j p where ip: "ip = (j, p)" by (cases ip)
  show ?case
  proof (cases "find_card (TABLEAU_START_X + int j * (CARD_WIDTH + 10))
                  (TABLEAU_START_Y + int (length (down p)) * TABLEAU_SPACING) ps
                  (rev [0..<length (up p)])")
    case None
    with Cons ip show ?thesis by (auto simp: Let_def)
  next
    case (Some c')
    with Cons.prems ip have "i = j" "c = c'" by (auto simp: Let_def)
    moreover from Some have "c' \<in> set (rev [0..<length (up p)])" by (rule find_card_in)
    ultimately show ?thesis using ip by auto
  qed
qed

lemma find_lift_enumerate:
  assumes "find_lift ps (List.enumerate 0 tab) = Some (i, c)"
  shows "i < length tab \<and> c < length (up (tab ! i))"
proof -
  from find_lift_in [OF assms] obtain p where "(i, p) \<in> set (List.enumerate 0 tab)" "c < length (up p)"
    by blast
  then show ?thesis by (auto simp: in_set_enumerate_eq)
qed

lemma length_foundation_rects: "length foundation_rects = 4"
  by (simp add: foundation_rects_def)

lemma length_foundation_suits: "length foundation_suits = 4"
  by (simp add: foundation_suits_def)

lemma foundation_drop_none:
  "list_all (\<lambda>(i, r). i < length (foundations g) \<and> i < length foundation_suits \<and> (collidepoint r ps \<longrightarrow>
      is_valid_foundation_move (foundations g ! i) c (foundation_suits ! i) = Inr False)) irs
   \<Longrightarrow> foundation_drop g ps c irs = Inr None"
  by (induction irs) (auto simp: py_get_def)

lemma tableau_drop_none:
  "list_all (\<lambda>(i, p). collidepoint (drop_rect i p) ps \<longrightarrow>
      is_valid_tableau_move (up p) c = Inr False) ips
   \<Longrightarrow> tableau_drop ps c ips = Inr None"
  by (induction ips) auto

lemma failed_drop:
  assumes drag: "dragging g = Some (source, subpile, origin_index, dx, dy)"
    and ne: "subpile \<noteq> []"
    and origin: "source = FromTableau \<longrightarrow> (\<exists>oi. origin_index = Some oi \<and> oi < length (tableau g))"
    and nf: "length (foundations g) = 4"
    and nv: "no_valid_destination g ps subpile"
  shows "handle_mouse_up g ps = Inr (returned g (source, subpile, origin_index, dx, dy))"
proof -
  have top: "py_get subpile 0 = Inr (hd subpile)"
    using ne by (cases subpile) (simp_all add: py_get_def)
  have fd: "(if length subpile = 1
             then foundation_drop g ps (hd subpile) (List.enumerate 0 foundation_rects)
             else Inr None) = Inr None"
  proof (cases "length subpile = 1")
    case True
    have "list_all (\<lambda>(i, r). i < length (foundations g) \<and> i < length foundation_suits \<and> (collidepoint r ps \<longrightarrow>
      is_valid_foundation_move (foundations g ! i) (hd subpile) (foundation_suits ! i) = Inr False))
       (List.enumerate 0 foundation_rects)"
      using nv True nf
      by (auto simp: no_valid_destination_def list_all_iff in_set_enumerate_eq
          length_foundation_rects length_foundation_suits)
    then show ?thesis using True by (simp add: foundation_drop_none)
  next
    case False
    then show ?thesis by simp
  qed
  have td: "tableau_drop ps (hd subpile) (List.enumerate 0 (tableau g)) = Inr None"
    using nv by (simp add: no_valid_destination_def tableau_drop_none)
  show ?thesis
  proof (cases source)
    case FromWaste
    then show ?thesis
      using drag top fd td
      by (simp add: handle_mouse_up_def on_drop_fail_def returned_def)
  next
    case FromTableau
    with origin obtain oi where "origin_index = Some oi" "oi < length (tableau g)" by blast
    then show ?thesis
      using drag top fd td FromTableau
      by (simp add: handle_mouse_up_def on_drop_fail_def returned_def py_get_def)
  qed
qed

lemma foundation_drop_cases:
  assumes "list_all (\<lambda>(i, r). i < length (foundations g) \<and> i < length foundation_suits
              \<and> list_all valid_card (foundations g ! i)) irs"
    and "valid_card c"
  shows "foundation_drop g ps c irs = Inr None
     \<or> (\<exists>i. i \<in> fst ` set irs
           \<and> is_valid_foundation_move (foundations g ! i) c (foundation_suits ! i) = Inr True
           \<and> foundation_drop g ps c irs = Inr (Some i))"
  using assms(1)
proof (induction irs)
  case Nil
  then show ?case by simp
next
  case (Cons ir irs)
  obtain i r where ir: "ir = (i, r)" by (cases ir)
  from Cons.prems ir have i: "i < length (foundations g)" "i < length foundation_suits"
    "list_all valid_card (foundations g ! i)" by simp_all
  from Cons have IH: "foundation_drop g ps c irs = Inr None
     \<or> (\<exists>i. i \<in> fst ` set irs
           \<and> is_valid_foundation_move (foundations g ! i) c (foundation_suits ! i) = Inr True
           \<and> foundation_drop g ps c irs = Inr (Some i))" by simp
  obtain b where b: "is_valid_foundation_move (foundations g ! i) c (foundation_suits ! i) = Inr b"
    using is_valid_foundation_move_total [OF assms(2) i(3)] by blast
  show ?case
  proof (cases "collidepoint r ps \<and> b")
    case True
    then show ?thesis using ir i b by (auto simp: py_get_def)
  next
    case False
    then have "foundation_drop g ps c (ir # irs) = foundation_drop g ps c irs"
      using ir i b by (auto simp: py_get_def)
    then show ?thesis using IH by auto
  qed
qed

lemma tableau_drop_cases:
  assumes "list_all (\<lambda>(i, p). list_all valid_card (up p)) ips"
    and "valid_card c"
  shows "tableau_drop ps c ips = Inr None
     \<or> (\<exists>i p. (i, p) \<in> set ips \<and> collidepoint (drop_rect i p) ps
           \<and> is_valid_tableau_move (up p) c = Inr True
           \<and> tableau_drop ps c ips = Inr (Some i))"
  using assms(1)
proof (induction ips)
  case Nil
  then show ?case by simp
next
  case (Cons ip ips)
  obtain i p where ip: "ip = (i, p)" by (cases ip)
  from Cons.prems ip have v: "list_all valid_card (up p)" by simp
  from Cons have IH: "tableau_drop ps c ips = Inr None
     \<or> (\<exists>i p. (i, p) \<in> set ips \<and> collidepoint (drop_rect i p) ps
           \<and> is_valid_tableau_move (up p) c = Inr True
           \<and> tableau_drop ps c ips = Inr (Some i))" by simp
  obtain b where b: "is_valid_tableau_move (up p) c = Inr b"
    using is_valid_tableau_move_total [OF assms(2) v] by blast
  show ?case
  proof (cases "collidepoint (drop_rect i p) ps")
    case True
    then show ?thesis using ip b by (cases b) auto
  next
    case False
    then have "tableau_drop ps c (ip # ips) = tableau_drop ps c ips"
      using ip by simp
    then show ?thesis using IH by auto
  qed
qed

lemma on_drop_success_cases:
  assumes "source = FromTableau \<longrightarrow> (\<exists>oi. origin_index = Some oi \<and> oi < length (tableau g))"
  shows "(\<exists>oi. source = FromTableau \<and> origin_index = Some oi \<and> oi < length (tableau g)
            \<and> up (tableau g ! oi) = [] \<and> down (tableau g ! oi) \<noteq> []
            \<and> on_drop_success g source subpile origin_index = Inr (counted (flipped g oi)))
         \<or> on_drop_success g source subpile origin_index = Inr (counted g)"
proof (cases source)
  case FromWaste
  then show ?thesis by (simp add: on_drop_success_def counted_def)
next
  case FromTableau
  with assms obtain oi where "origin_index = Some oi" "oi < length (tableau g)" by blast
  then show ?thesis using FromTableau
    by (auto simp: on_drop_success_def counted_def flipped_def py_get_def)
qed

lemma wf_game_dragD:
  assumes "wf_game g" and "dragging g = Some (source, subpile, origin_index, dx, dy)"
  shows "subpile \<noteq> []" and "list_all valid_card subpile" and "valid_card (hd subpile)"
    and "source = FromTableau \<longrightarrow> (\<exists>oi. origin_index = Some oi \<and> oi < length (tableau g))"
    and "length (tableau g) = 7" and "length (foundations g) = 4"
proof -
  from assms have d: "wf_drag (source, subpile, origin_index, dx, dy)"
    and p: "wf_piles (tableau g) (stock g) (waste g) (spent g) (foundations g)"
    by (simp_all add: wf_game_def)
  from d show "subpile \<noteq> []" and v: "list_all valid_card subpile" by simp_all
  with \<open>subpile \<noteq> []\<close> show "valid_card (hd subpile)" by (cases subpile) simp_all
  from p show l: "length (tableau g) = 7" and "length (foundations g) = 4"
    by (simp_all add: wf_piles_def)
  from d l show "source = FromTableau \<longrightarrow> (\<exists>oi. origin_index = Some oi \<and> oi < length (tableau g))"
    by (auto split: option.splits)
qed

lemma handle_mouse_up_cases:
  assumes wf: "wf_game g"
    and drag: "dragging g = Some (source, subpile, origin_index, dx, dy)"
  shows "(\<exists>i. i < 4 \<and> length subpile = 1
            \<and> is_valid_foundation_move (foundations g ! i) (hd subpile) (foundation_suits ! i) = Inr True
            \<and> handle_mouse_up g ps =
                on_drop_success (placed_on_foundation g i (hd subpile)) source subpile origin_index)
       \<or> (\<exists>i. i < 7
            \<and> is_valid_tableau_move (up (tableau g ! i)) (hd subpile) = Inr True
            \<and> handle_mouse_up g ps =
                (case on_drop_success (placed_on_tableau g i subpile) source subpile origin_index of
                   Inl e \<Rightarrow> Inl e | Inr g1 \<Rightarrow> Inr (g1\<lparr>dragging := None\<rparr>)))
       \<or> handle_mouse_up g ps = Inr (returned g (source, subpile, origin_index, dx, dy))"
proof -
  note D = wf_game_dragD [OF wf drag]
  from wf have p: "wf_piles (tableau g) (stock g) (waste g) (spent g) (foundations g)"
    by (simp add: wf_game_def)
  have top: "py_get subpile 0 = Inr (hd subpile)"
    using D(1) by (cases subpile) (simp_all add: py_get_def)
  have fpre: "list_all (\<lambda>(i, r). i < length (foundations g) \<and> i < length foundation_suits
              \<and> list_all valid_card (foundations g ! i)) (List.enumerate 0 foundation_rects)"
    using p by (auto simp: list_all_iff in_set_enumerate_eq wf_piles_def
        length_foundation_rects length_foundation_suits)
  have tpre: "list_all (\<lambda>(i, p). list_all valid_card (up p)) (List.enumerate 0 (tableau g))"
    using p by (auto simp: list_all_iff in_set_enumerate_eq wf_piles_def pile_ok_def)
  let ?fd = "if length subpile = 1
             then foundation_drop g ps (hd subpile) (List.enumerate 0 foundation_rects)
             else Inr None"
  have fcases: "?fd = Inr None \<or> (\<exists>i. i < 4 \<and> length subpile = 1
       \<and> is_valid_foundation_move (foundations g ! i) (hd subpile) (foundation_suits ! i) = Inr True
       \<and> ?fd = Inr (Some i))"
    using foundation_drop_cases [OF fpre D(3), of ps]
    by (auto simp: in_set_enumerate_eq length_foundation_rects)
  have tcases: "tableau_drop ps (hd subpile) (List.enumerate 0 (tableau g)) = Inr None
     \<or> (\<exists>i. i < 7 \<and> is_valid_tableau_move (up (tableau g ! i)) (hd subpile) = Inr True
           \<and> tableau_drop ps (hd subpile) (List.enumerate 0 (tableau g)) = Inr (Some i))"
    using tableau_drop_cases [OF tpre D(3), of ps] D(5)
    by (auto simp: in_set_enumerate_eq)
  from fcases show ?thesis
  proof
    assume f: "?fd = Inr None"
    from tcases show ?thesis
    proof
      assume t: "tableau_drop ps (hd subpile) (List.enumerate 0 (tableau g)) = Inr None"
      have "handle_mouse_up g ps = Inr (returned g (source, subpile, origin_index, dx, dy))"
      proof (cases source)
        case FromWaste
        then show ?thesis using drag top f t
          by (simp add: handle_mouse_up_def on_drop_fail_def returned_def)
      next
        case FromTableau
        with D(4) obtain oi where "origin_index = Some oi" "oi < length (tableau g)" by blast
        then show ?thesis using drag top f t FromTableau
          by (simp add: handle_mouse_up_def on_drop_fail_def returned_def py_get_def)
      qed
      then show ?thesis by blast
    next
      assume "\<exists>i. i < 7 \<and> is_valid_tableau_move (up (tableau g ! i)) (hd subpile) = Inr True
           \<and> tableau_drop ps (hd subpile) (List.enumerate 0 (tableau g)) = Inr (Some i)"
      then obtain i where i: "i < 7"
        "is_valid_tableau_move (up (tableau g ! i)) (hd subpile) = Inr True"
        "tableau_drop ps (hd subpile) (List.enumerate 0 (tableau g)) = Inr (Some i)" by blast
      have "handle_mouse_up g ps =
                (case on_drop_success (placed_on_tableau g i subpile) source subpile origin_index of
                   Inl e \<Rightarrow> Inl e | Inr g1 \<Rightarrow> Inr (g1\<lparr>dragging := None\<rparr>))"
        using drag top f i(3) by (simp add: handle_mouse_up_def placed_on_tableau_def)
      with i show ?thesis by blast
    qed
  next
    assume "\<exists>i. i < 4 \<and> length subpile = 1
       \<and> is_valid_foundation_move (foundations g ! i) (hd subpile) (foundation_suits ! i) = Inr True
       \<and> ?fd = Inr (Some i)"
    then obtain i where i: "i < 4" "length subpile = 1"
      "is_valid_foundation_move (foundations g ! i) (hd subpile) (foundation_suits ! i) = Inr True"
      "?fd = Inr (Some i)" by blast
    have "handle_mouse_up g ps =
                on_drop_success (placed_on_foundation g i (hd subpile)) source subpile origin_index"
      using drag top i(4) by (simp add: handle_mouse_up_def placed_on_foundation_def)
    with i show ?thesis by blast
  qed
qed

lemma tableau_placed [simp]:
  "tableau (placed_on_foundation g i c) = tableau g"
  "tableau (placed_on_tableau g i subpile) =
     (tableau g)[i := (tableau g ! i)\<lparr>up := up (tableau g ! i) @ subpile\<rparr>]"
  by (simp_all add: placed_on_foundation_def placed_on_tableau_def)

lemma handle_mouse_up_elim [consumes 2, case_names foundation foundation_flip tableau tableau_flip returned]:
  assumes wf: "wf_game g"
    and drag: "dragging g = Some (source, subpile, origin_index, dx, dy)"
  obtains
    (foundation) i c where "i < 4" "subpile = [c]"
      "is_valid_foundation_move (foundations g ! i) c (foundation_suits ! i) = Inr True"
      "handle_mouse_up g ps = Inr (counted (placed_on_foundation g i c))"
  | (foundation_flip) i c oi where "i < 4" "subpile = [c]"
      "is_valid_foundation_move (foundations g ! i) c (foundation_suits ! i) = Inr True"
      "source = FromTableau" "origin_index = Some oi" "oi < 7"
      "up (tableau g ! oi) = []" "down (tableau g ! oi) \<noteq> []"
      "handle_mouse_up g ps = Inr (counted (flipped (placed_on_foundation g i c) oi))"
  | (tableau) i where "i < 7"
      "is_valid_tableau_move (up (tableau g ! i)) (hd subpile) = Inr True"
      "handle_mouse_up g ps = Inr ((counted (placed_on_tableau g i subpile))\<lparr>dragging := None\<rparr>)"
  | (tableau_flip) i oi where "i < 7"
      "is_valid_tableau_move (up (tableau g ! i)) (hd subpile) = Inr True"
      "source = FromTableau" "origin_index = Some oi" "oi < 7" "oi \<noteq> i"
      "up (tableau g ! oi) = []" "down (tableau g ! oi) \<noteq> []"
      "handle_mouse_up g ps =
         Inr ((counted (flipped (placed_on_tableau g i subpile) oi))\<lparr>dragging := None\<rparr>)"
  | (returned)
      "handle_mouse_up g ps = Inr (returned g (source, subpile, origin_index, dx, dy))"
proof -
  note D = wf_game_dragD [OF wf drag]
  from handle_mouse_up_cases [OF wf drag, of ps]
  consider
    (F) i where "i < 4" "length subpile = 1"
      "is_valid_foundation_move (foundations g ! i) (hd subpile) (foundation_suits ! i) = Inr True"
      "handle_mouse_up g ps =
         on_drop_success (placed_on_foundation g i (hd subpile)) source subpile origin_index"
  | (T) i where "i < 7"
      "is_valid_tableau_move (up (tableau g ! i)) (hd subpile) = Inr True"
      "handle_mouse_up g ps =
         (case on_drop_success (placed_on_tableau g i subpile) source subpile origin_index of
            Inl e \<Rightarrow> Inl e | Inr g1 \<Rightarrow> Inr (g1\<lparr>dragging := None\<rparr>))"
  | (R) "handle_mouse_up g ps = Inr (returned g (source, subpile, origin_index, dx, dy))"
    by blast
  then show thesis
  proof cases
    case (F i)
    from F(2) obtain c where c: "subpile = [c]"
      by (cases subpile) simp_all
    have o: "source = FromTableau \<longrightarrow>
       (\<exists>oi. origin_index = Some oi \<and> oi < length (tableau (placed_on_foundation g i c)))"
      using D(4) by simp
    from on_drop_success_cases [OF o, of subpile] show thesis
    proof (elim disjE exE conjE)
      fix oi
      assume "source = FromTableau" "origin_index = Some oi"
        "oi < length (tableau (placed_on_foundation g i c))"
        "up (tableau (placed_on_foundation g i c) ! oi) = []"
        "down (tableau (placed_on_foundation g i c) ! oi) \<noteq> []"
        "on_drop_success (placed_on_foundation g i c) source subpile origin_index
           = Inr (counted (flipped (placed_on_foundation g i c) oi))"
      then show thesis
        using F c D(5) by (intro foundation_flip [of i c oi]) simp_all
    next
      assume "on_drop_success (placed_on_foundation g i c) source subpile origin_index
           = Inr (counted (placed_on_foundation g i c))"
      then show thesis
        using F c by (intro foundation [of i c]) simp_all
    qed
  next
    case (T i)
    have o: "source = FromTableau \<longrightarrow>
       (\<exists>oi. origin_index = Some oi \<and> oi < length (tableau (placed_on_tableau g i subpile)))"
      using D(4) by simp
    from on_drop_success_cases [OF o, of subpile] show thesis
    proof (elim disjE exE conjE)
      fix oi
      assume a: "source = FromTableau" "origin_index = Some oi"
        "oi < length (tableau (placed_on_tableau g i subpile))"
        "up (tableau (placed_on_tableau g i subpile) ! oi) = []"
        "down (tableau (placed_on_tableau g i subpile) ! oi) \<noteq> []"
        "on_drop_success (placed_on_tableau g i subpile) source subpile origin_index
           = Inr (counted (flipped (placed_on_tableau g i subpile) oi))"
      have ne: "oi \<noteq> i"
      proof
        assume "oi = i"
        with a(4) T(1) D(5) D(1) show False by simp
      qed
      with a show thesis
        using T D(5) by (intro tableau_flip [of i oi]) simp_all
    next
      assume "on_drop_success (placed_on_tableau g i subpile) source subpile origin_index
           = Inr (counted (placed_on_tableau g i subpile))"
      then show thesis
        using T by (intro tableau [of i]) simp_all
    qed
  next
    case R
    then show thesis by (rule returned)
  qed
qed

lemma counted_fields [simp]:
  "move_count (counted g) = move_count g + 1"
  "dragging (counted g) = dragging g"
  "history (counted g) = history g"
  "tableau (counted g) = tableau g"
  "foundations (counted g) = foundations g"
  "stock (counted g) = stock g"
  "waste (counted g) = waste g"
  "spent (counted g) = spent g"
  by (simp_all add: counted_def check_for_win_def Let_def)

lemma flipped_fields [simp]:
  "move_count (flipped g oi) = move_count g"
  "dragging (flipped g oi) = dragging g"
  "history (flipped g oi) = history g"
  "foundations (flipped g oi) = foundations g"
  "stock (flipped g oi) = stock g"
  "waste (flipped g oi) = waste g"
  "spent (flipped g oi) = spent g"
  "game_over (flipped g oi) = game_over g"
  by (simp_all add: flipped_def)

lemma placed_fields [simp]:
  "move_count (placed_on_foundation g i c) = move_count g"
  "dragging (placed_on_foundation g i c) = None"
  "history (placed_on_foundation g i c) = history g"
  "stock (placed_on_foundation g i c) = stock g"
  "waste (placed_on_foundation g i c) = waste g"
  "spent (placed_on_foundation g i c) = spent g"
  "game_over (placed_on_foundation g i c) = game_over g"
  "foundations (placed_on_foundation g i c) = (foundations g)[i := foundations g ! i @ [c]]"
  "move_count (placed_on_tableau g i subpile) = move_count g"
  "dragging (placed_on_tableau g i subpile) = dragging g"
  "history (placed_on_tableau g i subpile) = history g"
  "stock (placed_on_tableau g i subpile) = stock g"
  "waste (placed_on_tableau g i subpile) = waste g"
  "spent (placed_on_tableau g i subpile) = spent g"
  "game_over (placed_on_tableau g i subpile) = game_over g"
  "foundations (placed_on_tableau g i subpile) = foundations g"
  by (simp_all add: placed_on_foundation_def placed_on_tableau_def)

lemma returned_fields [simp]:
  "move_count (returned g d) = move_count g"
  "dragging (returned g d) = None"
  "history (returned g d) = history g"
  "foundations (returned g d) = foundations g"
  "stock (returned g d) = stock g"
  "spent (returned g d) = spent g"
  "game_over (returned g d) = game_over g"
  by (simp_all add: returned_def split: prod.splits drag_source.splits)

lemma no_valid_destination_cong:
  "foundations g' = foundations g \<Longrightarrow> tableau g' = tableau g \<Longrightarrow>
     no_valid_destination g' ps subpile = no_valid_destination g ps subpile"
  by (simp add: no_valid_destination_def)

section \<open>Facts about the cards of a state\<close>

lemma sum_list_map_update:
  fixes f :: "'a \<Rightarrow> 'b multiset"
  shows "i < length xs \<Longrightarrow> sum_list (map f (xs[i := y])) + f (xs ! i) = sum_list (map f xs) + f y"
proof (induction xs arbitrary: i)
  case Nil
  then show ?case by simp
next
  case (Cons x xs)
  show ?case
  proof (cases i)
    case 0
    then show ?thesis by (simp add: ac_simps)
  next
    case (Suc j)
    with Cons.prems have "j < length xs" by simp
    from Cons.IH [OF this] Suc show ?thesis by (simp add: ac_simps)
  qed
qed

lemma pile_cards_counted [simp]: "pile_cards (counted g) = pile_cards g"
  by (simp add: counted_def check_for_win_def pile_cards_def Let_def)

lemma pile_cards_dragging [simp]: "pile_cards (g\<lparr>dragging := d\<rparr>) = pile_cards g"
  by (simp add: pile_cards_def)

lemma pile_cards_history [simp]: "pile_cards (g\<lparr>history := h\<rparr>) = pile_cards g"
  by (simp add: pile_cards_def)

lemma pile_cards_placed_on_foundation:
  assumes "i < length (foundations g)"
  shows "pile_cards (placed_on_foundation g i c) = pile_cards g + {#c#}"
proof -
  have "sum_list (map mset ((foundations g)[i := foundations g ! i @ [c]])) + mset (foundations g ! i)
      = sum_list (map mset (foundations g)) + mset (foundations g ! i @ [c])"
    using assms by (rule sum_list_map_update)
  then have "sum_list (map mset ((foundations g)[i := foundations g ! i @ [c]]))
      = sum_list (map mset (foundations g)) + {#c#}"
    by simp
  then show ?thesis
    by (simp add: pile_cards_def placed_on_foundation_def)
qed

lemma tableau_cards_update:
  assumes "i < length tab"
    and "mset (down p) + mset (up p) = mset (down (tab ! i)) + mset (up (tab ! i)) + extra"
  shows "sum_list (map (\<lambda>p. mset (down p) + mset (up p)) (tab[i := p]))
      = sum_list (map (\<lambda>p. mset (down p) + mset (up p)) tab) + extra"
proof -
  have "sum_list (map (\<lambda>p. mset (down p) + mset (up p)) (tab[i := p]))
          + (mset (down (tab ! i)) + mset (up (tab ! i)))
      = sum_list (map (\<lambda>p. mset (down p) + mset (up p)) tab) + (mset (down p) + mset (up p))"
    using assms(1) by (rule sum_list_map_update)
  with assms(2) show ?thesis by simp
qed

lemma pile_cards_placed_on_tableau:
  assumes "i < length (tableau g)"
  shows "pile_cards (placed_on_tableau g i subpile) = pile_cards g + mset subpile"
proof -
  have "sum_list (map (\<lambda>p. mset (down p) + mset (up p))
          ((tableau g)[i := (tableau g ! i)\<lparr>up := up (tableau g ! i) @ subpile\<rparr>]))
      = sum_list (map (\<lambda>p. mset (down p) + mset (up p)) (tableau g)) + mset subpile"
    using assms by (rule tableau_cards_update) simp
  then show ?thesis
    by (simp add: pile_cards_def placed_on_tableau_def)
qed

lemma pile_cards_flipped:
  assumes "oi < length (tableau g)" and "down (tableau g ! oi) \<noteq> []"
  shows "pile_cards (flipped g oi) = pile_cards g"
proof -
  let ?p = "tableau g ! oi"
  have "mset (butlast (down ?p)) + {#last (down ?p)#} = mset (down ?p)"
  proof -
    have "mset (butlast (down ?p) @ [last (down ?p)]) = mset (down ?p)"
      using assms(2) by simp
    then show ?thesis by simp
  qed
  then have "mset (down (?p\<lparr>up := up ?p @ [last (down ?p)], down := butlast (down ?p)\<rparr>))
        + mset (up (?p\<lparr>up := up ?p @ [last (down ?p)], down := butlast (down ?p)\<rparr>))
      = mset (down ?p) + mset (up ?p) + {#}"
    by (simp add: ac_simps)
  with assms(1) have "sum_list (map (\<lambda>p. mset (down p) + mset (up p))
          ((tableau g)[oi := ?p\<lparr>up := up ?p @ [last (down ?p)], down := butlast (down ?p)\<rparr>]))
      = sum_list (map (\<lambda>p. mset (down p) + mset (up p)) (tableau g)) + {#}"
    by (rule tableau_cards_update)
  then show ?thesis
    by (simp add: pile_cards_def flipped_def)
qed

lemma pile_cards_returned:
  assumes "source = FromTableau \<longrightarrow> (\<exists>oi. origin_index = Some oi \<and> oi < length (tableau g))"
  shows "pile_cards (returned g (source, subpile, origin_index, dx, dy)) = pile_cards g + mset subpile"
proof (cases source)
  case FromWaste
  then show ?thesis by (simp add: returned_def pile_cards_def)
next
  case FromTableau
  with assms obtain oi where oi: "origin_index = Some oi" "oi < length (tableau g)" by blast
  have "pile_cards (placed_on_tableau g oi subpile) = pile_cards g + mset subpile"
    using oi(2) by (rule pile_cards_placed_on_tableau)
  moreover have "returned g (source, subpile, origin_index, dx, dy)
      = (placed_on_tableau g oi subpile)\<lparr>dragging := None\<rparr>"
    using FromTableau oi by (simp add: returned_def placed_on_tableau_def)
  ultimately show ?thesis by simp
qed

section \<open>Evaluating the layout\<close>

lemmas layout_defs = WIDTH_def HEIGHT_def TABLEAU_SPACING_def STOCK_X_def STOCK_Y_def
  WASTE_X_def WASTE_Y_def TABLEAU_START_X_def TABLEAU_START_Y_def UNDO_BTN_WIDTH_def
  UNDO_BTN_HEIGHT_def RESHUFFLE_BTN_WIDTH_def RESHUFFLE_BTN_HEIGHT_def CARD_WIDTH_def
  CARD_HEIGHT_def undo_rect_def reshuffle_rect_def play_again_rect_def stock_rect_def
  waste_top_rect_def drop_rect_def

lemma foundation_rects_eval:
  "foundation_rects =
     [(890, 20, 90, 130), (890, 165, 90, 130), (890, 310, 90, 130), (890, 455, 90, 130)]"
  by (simp add: foundation_rects_def layout_defs upt_rec)

section \<open>Drawing from the stock\<close>

text \<open>
  C2.  The contract of \<open>click_stock\<close>.  With a non-empty stock \<open>st @ [c]\<close> (top card
  \<open>c\<close>) the card \<open>c\<close> leaves the stock and becomes the last card of the waste; when the
  waste holds three cards \<open>[w1, w2, w3]\<close>, its oldest card \<open>w1\<close> is first moved to the
  end of the spent pile.  With an empty stock and a non-empty waste or spent pile, the
  stock becomes the reversal of spent followed by waste and both are emptied.  With all
  three empty nothing changes.  Every other field of the state is untouched each time.
  The two scenarios: four draws from a stock ending in \<open>c4, c3, c2, c1\<close> (so \<open>c1\<close> is drawn
  first) with empty waste and spent leave waste \<open>[c2, c3, c4]\<close> and spent \<open>[c1]\<close>; a click
  on an empty stock with waste \<open>[wa, wb, wc]\<close> and spent \<open>[sa, sb]\<close> leaves the stock
  \<open>rev [sa, sb, wa, wb, wc]\<close>.
\<close>

theorem click_stock_contract:
  "(stock g = st @ [c] \<and> waste g = [w1, w2, w3] \<longrightarrow>
      click_stock g = g\<lparr>stock := st, waste := [w2, w3, c], spent := spent g @ [w1]\<rparr>)
   \<and> (stock g = st @ [c] \<and> length (waste g) \<noteq> 3 \<longrightarrow>
      click_stock g = g\<lparr>stock := st, waste := waste g @ [c]\<rparr>)
   \<and> (stock g = [] \<and> (waste g \<noteq> [] \<or> spent g \<noteq> []) \<longrightarrow>
      click_stock g = g\<lparr>stock := rev (spent g @ waste g), waste := [], spent := []\<rparr>)
   \<and> (stock g = [] \<and> waste g = [] \<and> spent g = [] \<longrightarrow> click_stock g = g)
   \<and> (stock g = st @ [c4, c3, c2, c1] \<and> waste g = [] \<and> spent g = [] \<longrightarrow>
      click_stock (click_stock (click_stock (click_stock g)))
        = g\<lparr>stock := st, waste := [c2, c3, c4], spent := [c1]\<rparr>)
   \<and> (stock g = [] \<and> waste g = [wa, wb, wc] \<and> spent g = [sa, sb] \<longrightarrow>
      click_stock g = g\<lparr>stock := rev [sa, sb, wa, wb, wc], waste := [], spent := []\<rparr>)"
  by (simp add: click_stock_def Let_def butlast_append)

theorem click_stock_contract_witness:
  "stock example_game = [''2D''] @ [''KH''] \<and> length (waste example_game) \<noteq> 3
   \<and> click_stock example_game = example_game\<lparr>stock := [''2D''], waste := [''5H'', ''KH'']\<rparr>
   \<and> click_stock (example_game\<lparr>waste := [''5H'', ''6C'', ''7D'']\<rparr>)
       = example_game\<lparr>stock := [''2D''], waste := [''6C'', ''7D'', ''KH''], spent := [''5H'']\<rparr>
   \<and> click_stock (example_game\<lparr>stock := [], waste := [''5H'', ''6C'', ''7D''], spent := [''8S'', ''9H'']\<rparr>)
       = example_game\<lparr>stock := [''7D'', ''6C'', ''5H'', ''9H'', ''8S''], waste := [], spent := []\<rparr>
   \<and> click_stock (example_game\<lparr>stock := [], waste := []\<rparr>)
       = example_game\<lparr>stock := [], waste := []\<rparr>
   \<and> click_stock (click_stock (click_stock (click_stock
         (example_game\<lparr>stock := [''2D'', ''4S'', ''3S'', ''2S'', ''AS''], waste := []\<rparr>))))
       = example_game\<lparr>stock := [''2D''], waste := [''2S'', ''3S'', ''4S''], spent := [''AS'']\<rparr>"
proof -
  have a: "stock example_game = [''2D''] @ [''KH'']" "length (waste example_game) \<noteq> 3"
    "waste example_game = [''5H'']" "spent example_game = []"
    by (simp_all add: example_game_def)
  note t = click_stock_contract
  from t [of example_game "[''2D'']" "''KH''"] a
  have 1: "click_stock example_game = example_game\<lparr>stock := [''2D''], waste := [''5H'', ''KH'']\<rparr>"
    by simp
  from t [of "example_game\<lparr>waste := [''5H'', ''6C'', ''7D'']\<rparr>" "[''2D'']" "''KH''" "''5H''" "''6C''" "''7D''"] a
  have 2: "click_stock (example_game\<lparr>waste := [''5H'', ''6C'', ''7D'']\<rparr>)
       = example_game\<lparr>stock := [''2D''], waste := [''6C'', ''7D'', ''KH''], spent := [''5H'']\<rparr>"
    by simp
  from t [where g = "example_game\<lparr>stock := [], waste := [''5H'', ''6C'', ''7D''], spent := [''8S'', ''9H'']\<rparr>"
      and wa = "''5H''" and wb = "''6C''" and wc = "''7D''" and sa = "''8S''" and sb = "''9H''"]
  have 3: "click_stock (example_game\<lparr>stock := [], waste := [''5H'', ''6C'', ''7D''], spent := [''8S'', ''9H'']\<rparr>)
       = example_game\<lparr>stock := [''7D'', ''6C'', ''5H'', ''9H'', ''8S''], waste := [], spent := []\<rparr>"
    by simp
  from t [where g = "example_game\<lparr>stock := [], waste := []\<rparr>"] a
  have 4: "click_stock (example_game\<lparr>stock := [], waste := []\<rparr>)
       = example_game\<lparr>stock := [], waste := []\<rparr>"
    by simp
  from t [where g = "example_game\<lparr>stock := [''2D'', ''4S'', ''3S'', ''2S'', ''AS''], waste := []\<rparr>"
      and st = "[''2D'']" and ?c4.0 = "''4S''" and ?c3.0 = "''3S''" and ?c2.0 = "''2S''" and ?c1.0 = "''AS''"] a
  have 5: "click_stock (click_stock (click_stock (click_stock
         (example_game\<lparr>stock := [''2D'', ''4S'', ''3S'', ''2S'', ''AS''], waste := []\<rparr>))))
       = example_game\<lparr>stock := [''2D''], waste := [''2S'', ''3S'', ''4S''], spent := [''AS'']\<rparr>"
    by simp
  from a 1 2 3 4 5 show ?thesis by simp
qed

section \<open>Undo\<close>

text \<open>
  C4.  \<open>handle_undo\<close> with a non-empty history \<open>hs @ [snap]\<close> removes the most recent
  snapshot \<open>snap\<close> from the history, replaces tableau, stock, waste, spent, foundations
  and the game-over flag by the snapshot's values, and sets the move count to the
  snapshot's move count minus 1, floored at 0.  With an empty history it returns the
  state as it is.
\<close>

theorem handle_undo_contract:
  "(history g = hs @ [snap] \<longrightarrow>
      handle_undo g =
        g\<lparr>tableau := s_tableau snap, stock := s_stock snap, waste := s_waste snap,
          spent := s_spent snap, foundations := s_foundations snap,
          move_count := max 0 (s_move_count snap - 1), history := hs,
          game_over := s_game_over snap\<rparr>)
   \<and> (history g = [] \<longrightarrow> handle_undo g = g)"
  by (simp add: handle_undo_def load_state_def Let_def)

theorem handle_undo_contract_witness:
  "history (example_game\<lparr>history := [save_state (example_game\<lparr>waste := []\<rparr>)]\<rparr>)
     = [] @ [save_state (example_game\<lparr>waste := []\<rparr>)]
   \<and> handle_undo (example_game\<lparr>history := [save_state (example_game\<lparr>waste := []\<rparr>)]\<rparr>)
     = example_game\<lparr>waste := [], move_count := 2\<rparr>
   \<and> history example_game = []
   \<and> handle_undo example_game = example_game"
proof -
  have h: "history example_game = []"
    by (simp add: example_game_def)
  from handle_undo_contract
    [of "example_game\<lparr>history := [save_state (example_game\<lparr>waste := []\<rparr>)]\<rparr>" "[]"
      "save_state (example_game\<lparr>waste := []\<rparr>)"]
  have 1: "handle_undo (example_game\<lparr>history := [save_state (example_game\<lparr>waste := []\<rparr>)]\<rparr>)
     = example_game\<lparr>waste := [], move_count := 2\<rparr>"
    by (simp add: save_state_def example_game_def)
  from handle_undo_contract [of example_game] h
  have 2: "handle_undo example_game = example_game"
    by simp
  from h 1 2 show ?thesis by simp
qed

section \<open>Dropping a run\<close>

text \<open>
  C3.  In a well-formed state with an active drag (every state the program reaches is
  well-formed, see \<open>reachable_wf\<close> below), \<open>handle_mouse_up\<close> raises nothing and
  clears the drag state; all cards of the run are in the piles afterwards (the piles
  hold what they held plus the run).  When the position matches no destination, or the
  validator rejects the run where it matches, the result is \<open>returned\<close>: the run is
  back at the end of the waste (waste lift) or of the origin pile's face-up list
  (tableau lift), in its order, and nothing else has changed.  The drop ends in exactly
  one of the two outcomes: either the state is \<open>returned\<close>, or the move was counted
  (the post-move hook of a successful drop is the only code of the handler that adds 1
  to the move count).
\<close>

theorem failed_drop_atomicity:
  assumes wf: "wf_game g"
    and drag: "dragging g = Some (source, subpile, origin_index, dx, dy)"
  shows "\<exists>g'. handle_mouse_up g ps = Inr g'
           \<and> dragging g' = None
           \<and> pile_cards g' = pile_cards g + mset subpile
           \<and> (no_valid_destination g ps subpile \<longrightarrow>
                 g' = returned g (source, subpile, origin_index, dx, dy))
           \<and> ((g' = returned g (source, subpile, origin_index, dx, dy))
                 \<noteq> (move_count g' = move_count g + 1))"
proof -
  note D = wf_game_dragD [OF wf drag]
  let ?r = "returned g (source, subpile, origin_index, dx, dy)"
  have fail: "no_valid_destination g ps subpile \<longrightarrow> handle_mouse_up g ps = Inr ?r"
    using failed_drop [OF drag D(1) D(4) D(6)] by blast
  have key: "\<exists>g'. handle_mouse_up g ps = Inr g' \<and> dragging g' = None
           \<and> pile_cards g' = pile_cards g + mset subpile
           \<and> ((g' = ?r) \<noteq> (move_count g' = move_count g + 1))"
    using wf drag
  proof (cases rule: handle_mouse_up_elim [where ps = ps])
    case (foundation i c)
    let ?g = "counted (placed_on_foundation g i c)"
    have "pile_cards ?g = pile_cards g + mset subpile"
      using foundation(1,2) D(6) by (simp add: pile_cards_placed_on_foundation)
    moreover have "move_count ?g = move_count g + 1" by simp
    moreover have "?g \<noteq> ?r"
    proof
      assume "?g = ?r"
      then have "move_count ?g = move_count ?r" by simp
      then show False by simp
    qed
    ultimately show ?thesis using foundation(4) by simp
  next
    case (foundation_flip i c oi)
    let ?g = "counted (flipped (placed_on_foundation g i c) oi)"
    have "pile_cards ?g = pile_cards g + mset subpile"
      using foundation_flip D(5,6)
      by (simp add: pile_cards_placed_on_foundation pile_cards_flipped)
    moreover have "move_count ?g = move_count g + 1" by simp
    moreover have "?g \<noteq> ?r"
    proof
      assume "?g = ?r"
      then have "move_count ?g = move_count ?r" by simp
      then show False by simp
    qed
    ultimately show ?thesis using foundation_flip(9) by simp
  next
    case (tableau i)
    let ?g = "(counted (placed_on_tableau g i subpile))\<lparr>dragging := None\<rparr>"
    have "pile_cards ?g = pile_cards g + mset subpile"
      using tableau(1) D(5) by (simp add: pile_cards_placed_on_tableau)
    moreover have "move_count ?g = move_count g + 1" by simp
    moreover have "?g \<noteq> ?r"
    proof
      assume "?g = ?r"
      then have "move_count ?g = move_count ?r" by simp
      then show False by simp
    qed
    ultimately show ?thesis using tableau(3) by simp
  next
    case (tableau_flip i oi)
    let ?g = "(counted (flipped (placed_on_tableau g i subpile) oi))\<lparr>dragging := None\<rparr>"
    have "pile_cards ?g = pile_cards g + mset subpile"
      using tableau_flip D(5)
      by (simp add: pile_cards_placed_on_tableau pile_cards_flipped)
    moreover have "move_count ?g = move_count g + 1" by simp
    moreover have "?g \<noteq> ?r"
    proof
      assume "?g = ?r"
      then have "move_count ?g = move_count ?r" by simp
      then show False by simp
    qed
    ultimately show ?thesis using tableau_flip(9) by simp
  next
    case returned
    then show ?thesis using D(4) by (simp add: pile_cards_returned)
  qed
  from key fail show ?thesis by auto
qed

theorem failed_drop_atomicity_witness:
  "wf_game (lift_tableau example_game (270, 120) 1 1)
   \<and> dragging (lift_tableau example_game (270, 120) 1 1)
        = Some (FromTableau, [''9C''], Some 1, 10, 30)
   \<and> no_valid_destination (lift_tableau example_game (270, 120) 1 1) (0, 0) [''9C'']
   \<and> handle_mouse_up (lift_tableau example_game (270, 120) 1 1) (0, 0)
        = Inr (returned (lift_tableau example_game (270, 120) 1 1)
                 (FromTableau, [''9C''], Some 1, 10, 30))
   \<and> returned (lift_tableau example_game (270, 120) 1 1) (FromTableau, [''9C''], Some 1, 10, 30)
        = example_game\<lparr>history := [save_state example_game]\<rparr>"
proof -
  let ?g = "lift_tableau example_game (270, 120) 1 1"
  have wf: "wf_game ?g"
    by (simp add: wf_game_def wf_piles_def wf_saved_def pile_ok_def lift_tableau_def
        example_game_def save_state_def Let_def valid_card_def unshuffled_deck_def
        deck_values_def deck_suits_def)
  have drag: "dragging ?g = Some (FromTableau, [''9C''], Some 1, 10, 30)"
    by (simp add: lift_tableau_def example_game_def layout_defs Let_def)
  have nv: "no_valid_destination ?g (0, 0) [''9C'']"
    by (simp add: no_valid_destination_def lift_tableau_def example_game_def layout_defs
        foundation_rects_eval enumerate_eq_zip upt_rec Let_def)
  have r: "returned ?g (FromTableau, [''9C''], Some 1, 10, 30)
        = example_game\<lparr>history := [save_state example_game]\<rparr>"
    by (simp add: returned_def lift_tableau_def example_game_def Let_def)
  from failed_drop_atomicity [OF wf drag, of "(0, 0)"] nv
  have "handle_mouse_up ?g (0, 0) = Inr (returned ?g (FromTableau, [''9C''], Some 1, 10, 30))"
    by auto
  with wf drag nv r show ?thesis by simp
qed

section \<open>A cancelled drag and the undo after it\<close>

text \<open>
  C10.  Let a pointer-down lift a run from state \<open>g\<close> (from the top of the waste or from
  a face-up tableau card), the four foundations being there.  When the pointer-up that
  follows finds no valid destination, the state after it is \<open>g\<close> with one more history
  entry, the snapshot of \<open>g\<close>, and no drag: piles, foundations, move count and game-over
  flag are those of \<open>g\<close>.  An undo right after gives \<open>g\<close> with the move count
  decremented by 1, floored at 0: the history is back to that of \<open>g\<close> and every pile is
  as it was.
\<close>

theorem cancelled_drag_consumes_undo:
  assumes lift: "lifts g ps"
    and nf: "length (foundations g) = 4"
  shows "\<exists>g1 source subpile origin_index dx dy.
           handle_mouse_down g ps shuffled = Inr g1
           \<and> dragging g1 = Some (source, subpile, origin_index, dx, dy)
           \<and> (no_valid_destination g1 ps' subpile \<longrightarrow>
                handle_mouse_up g1 ps'
                  = Inr (g\<lparr>history := history g @ [save_state g], dragging := None\<rparr>)
                \<and> handle_undo (g\<lparr>history := history g @ [save_state g], dragging := None\<rparr>)
                  = g\<lparr>move_count := max 0 (move_count g - 1), dragging := None\<rparr>)"
proof -
  have undo: "handle_undo (g\<lparr>history := history g @ [save_state g], dragging := None\<rparr>)
                  = g\<lparr>move_count := max 0 (move_count g - 1), dragging := None\<rparr>"
    by (simp add: handle_undo_def load_state_def save_state_def Let_def)
  show ?thesis
  proof (cases "waste g \<noteq> [] \<and> collidepoint (waste_top_rect g) ps")
    case True
    let ?g1 = "lift_waste g ps"
    let ?dx = "fst ps - WASTE_X"
    let ?dy = "snd ps - (WASTE_Y + (int (length (waste g)) - 1) * TABLEAU_SPACING)"
    have down: "handle_mouse_down g ps shuffled = Inr ?g1"
      using lift True by (simp add: handle_mouse_down_def lifts_def)
    have drag: "dragging ?g1 = Some (FromWaste, [last (waste g)], None, ?dx, ?dy)"
      by (simp add: lift_waste_def Let_def)
    have nf1: "length (foundations ?g1) = 4"
      using nf by (simp add: lift_waste_def Let_def)
    have ret: "returned ?g1 (FromWaste, [last (waste g)], None, ?dx, ?dy)
        = g\<lparr>history := history g @ [save_state g], dragging := None\<rparr>"
      using True by (simp add: returned_def lift_waste_def Let_def)
    have "no_valid_destination ?g1 ps' [last (waste g)] \<longrightarrow>
        handle_mouse_up ?g1 ps' = Inr (g\<lparr>history := history g @ [save_state g], dragging := None\<rparr>)"
      using failed_drop [OF drag _ _ nf1, of ps'] ret by simp
    with down drag undo show ?thesis by blast
  next
    case False
    with lift obtain i cindex where fl: "find_lift ps (List.enumerate 0 (tableau g)) = Some (i, cindex)"
      by (auto simp: lifts_def)
    from find_lift_enumerate [OF fl] have i: "i < length (tableau g)"
      and c: "cindex < length (up (tableau g ! i))" by simp_all
    let ?g1 = "lift_tableau g ps i cindex"
    let ?p = "tableau g ! i"
    let ?dx = "fst ps - (TABLEAU_START_X + int i * (CARD_WIDTH + 10))"
    let ?dy = "snd ps - (TABLEAU_START_Y + int (length (down ?p)) * TABLEAU_SPACING
                          + int cindex * TABLEAU_SPACING)"
    have down: "handle_mouse_down g ps shuffled = Inr ?g1"
      using lift False fl by (auto simp: handle_mouse_down_def lifts_def)
    have drag: "dragging ?g1 = Some (FromTableau, drop cindex (up ?p), Some i, ?dx, ?dy)"
      by (simp add: lift_tableau_def Let_def)
    have ne: "drop cindex (up ?p) \<noteq> []"
      using c by simp
    have origin: "FromTableau = FromTableau \<longrightarrow>
        (\<exists>oi. Some i = Some oi \<and> oi < length (tableau ?g1))"
      using i by (simp add: lift_tableau_def Let_def)
    have nf1: "length (foundations ?g1) = 4"
      using nf by (simp add: lift_tableau_def Let_def)
    have "(?p\<lparr>up := take cindex (up ?p)\<rparr>)\<lparr>up := take cindex (up ?p) @ drop cindex (up ?p)\<rparr> = ?p"
      by simp
    then have ret: "returned ?g1 (FromTableau, drop cindex (up ?p), Some i, ?dx, ?dy)
        = g\<lparr>history := history g @ [save_state g], dragging := None\<rparr>"
      using i by (simp add: returned_def lift_tableau_def Let_def)
    have "no_valid_destination ?g1 ps' (drop cindex (up ?p)) \<longrightarrow>
        handle_mouse_up ?g1 ps' = Inr (g\<lparr>history := history g @ [save_state g], dragging := None\<rparr>)"
      using failed_drop [OF drag ne origin nf1, of ps'] ret by simp
    with down drag undo show ?thesis by blast
  qed
qed

theorem cancelled_drag_consumes_undo_witness:
  "lifts example_game (60, 210) \<and> length (foundations example_game) = 4
   \<and> handle_mouse_down example_game (60, 210) [] = Inr (lift_waste example_game (60, 210))
   \<and> no_valid_destination (lift_waste example_game (60, 210)) (0, 0) [''5H'']
   \<and> handle_mouse_up (lift_waste example_game (60, 210)) (0, 0)
       = Inr (example_game\<lparr>history := [save_state example_game], dragging := None\<rparr>)
   \<and> handle_undo (example_game\<lparr>history := [save_state example_game], dragging := None\<rparr>)
       = example_game\<lparr>move_count := 2, dragging := None\<rparr>"
proof -
  have h1: "lifts example_game (60, 210)"
    by (simp add: lifts_def example_game_def layout_defs)
  have h2: "length (foundations example_game) = 4"
    by (simp add: example_game_def)
  have d: "handle_mouse_down example_game (60, 210) [] = Inr (lift_waste example_game (60, 210))"
    by (simp add: handle_mouse_down_def example_game_def layout_defs)
  have s: "dragging (lift_waste example_game (60, 210)) = Some (FromWaste, [''5H''], None, 10, 10)"
    by (simp add: lift_waste_def example_game_def layout_defs Let_def)
  have nv: "no_valid_destination (lift_waste example_game (60, 210)) (0, 0) [''5H'']"
    by (simp add: no_valid_destination_def lift_waste_def example_game_def layout_defs
      foundation_rects_eval enumerate_eq_zip upt_rec Let_def)
  have hh: "history example_game = []" and mc: "move_count example_game = 3"
    by (simp_all add: example_game_def)
  from cancelled_drag_consumes_undo [OF h1 h2, of "[]" "(0, 0)"] d s nv hh mc
  show ?thesis using h1 h2 by auto
qed

section \<open>Reachable states\<close>

lemma shuffles_ok_Cons: "shuffles_ok (e # es) = (shuffles_ok [e] \<and> shuffles_ok es)"
  by (cases e) simp_all

lemma shuffles_ok_append: "shuffles_ok (es @ es') = (shuffles_ok es \<and> shuffles_ok es')"
proof (induction es)
  case Nil
  then show ?case by simp
next
  case (Cons e es)
  then show ?case
    using shuffles_ok_Cons [of e "es @ es'"] shuffles_ok_Cons [of e es] by simp
qed

lemma run_events_append:
  "run_events g (es @ es') =
     (case run_events g es of Inl err \<Rightarrow> Inl err | Inr g1 \<Rightarrow> run_events g1 es')"
  by (induction es arbitrary: g) (auto split: sum.splits)

lemma run_events_invariant:
  assumes step: "\<And>g e g'. P g \<Longrightarrow> shuffles_ok [e] \<Longrightarrow> dispatch g e = Inr g' \<Longrightarrow> P g'"
  shows "P g0 \<Longrightarrow> shuffles_ok es \<Longrightarrow> run_events g0 es = Inr g \<Longrightarrow> P g"
proof (induction es arbitrary: g0)
  case Nil
  then show ?case by simp
next
  case (Cons e es)
  from Cons.prems(2) have ok: "shuffles_ok [e]" "shuffles_ok es"
    using shuffles_ok_Cons [of e es] by simp_all
  from Cons.prems(3) obtain g1 where g1: "dispatch g0 e = Inr g1" "run_events g1 es = Inr g"
    by (auto split: sum.splits)
  from step [OF Cons.prems(1) ok(1) g1(1)] have "P g1" .
  from Cons.IH [OF this ok(2) g1(2)] show ?case .
qed

lemma reachable_induct [consumes 1, case_names init step]:
  assumes "reachable g"
    and init: "\<And>shuffled g0. is_shuffle shuffled \<Longrightarrow> Solitaire_init shuffled = Inr g0 \<Longrightarrow> P g0"
    and step: "\<And>g e g'. P g \<Longrightarrow> shuffles_ok [e] \<Longrightarrow> dispatch g e = Inr g' \<Longrightarrow> P g'"
  shows "P g"
proof -
  from assms(1) obtain shuffled es g0 where r: "is_shuffle shuffled" "shuffles_ok es"
    "Solitaire_init shuffled = Inr g0" "run_events g0 es = Inr g"
    by (auto simp: reachable_def)
  from init [OF r(1,3)] have "P g0" .
  from run_events_invariant [of P, OF step this r(2,4)] show ?thesis .
qed

lemma reachable_init:
  "is_shuffle shuffled \<Longrightarrow> Solitaire_init shuffled = Inr g0 \<Longrightarrow> reachable g0"
proof -
  assume a: "is_shuffle shuffled" "Solitaire_init shuffled = Inr g0"
  have "shuffles_ok []" "run_events g0 [] = Inr g0" by simp_all
  with a show ?thesis unfolding reachable_def by blast
qed

lemma reachable_step:
  assumes "reachable g" and "shuffles_ok [e]" and "dispatch g e = Inr g'"
  shows "reachable g'"
proof -
  from assms(1) obtain shuffled es g0 where r: "is_shuffle shuffled" "shuffles_ok es"
    "Solitaire_init shuffled = Inr g0" "run_events g0 es = Inr g"
    by (auto simp: reachable_def)
  have "shuffles_ok (es @ [e])"
    using r(2) assms(2) by (simp add: shuffles_ok_append)
  moreover have "run_events g0 (es @ [e]) = Inr g'"
    using r(4) assms(3) by (simp add: run_events_append)
  ultimately show ?thesis
    using r(1,3) unfolding reachable_def by blast
qed

lemma Solitaire_init_fields:
  assumes "Solitaire_init shuffled = Inr g"
  shows "foundations g = replicate 4 []" "dragging g = None" "move_count g = 0"
    "history g = []" "\<not> game_over g" "waste g = []" "spent g = []" "stock g = deck g"
  using assms
  by (auto simp: Solitaire_init_def split: sum.splits prod.splits)

lemma Solitaire_init_unshuffled: "Solitaire_init unshuffled_deck = Inr dealt_game"
  by (simp add: Solitaire_init_def setup_tableau_def py_get_def upt_rec dealt_game_def
      unshuffled_deck_def deck_values_def deck_suits_def eval_nat_numeral)

lemma is_shuffle_unshuffled: "is_shuffle unshuffled_deck"
  by (simp add: is_shuffle_def)

section \<open>Win detection\<close>

lemma win_inv_init: "Solitaire_init shuffled = Inr g \<Longrightarrow> win_inv g"
  by (simp add: win_inv_def foundation_total_def Solitaire_init_fields sum_list_replicate)

lemma win_inv_undo:
  assumes "win_inv g" and "\<not> game_over g"
  shows "win_inv (handle_undo g) \<and> \<not> game_over (handle_undo g)"
proof (cases "history g = []")
  case True
  with assms show ?thesis by (simp add: handle_undo_def)
next
  case False
  then have "last (history g) \<in> set (history g)" by simp
  with assms(1) have l: "\<not> s_game_over (last (history g))"
    "sum_list (map length (s_foundations (last (history g)))) \<noteq> 52"
    by (simp_all add: win_inv_def list_all_iff)
  have "set (butlast (history g)) \<subseteq> set (history g)"
    by (auto dest: in_set_butlastD)
  with assms(1) have "list_all (\<lambda>s. \<not> s_game_over s \<and> sum_list (map length (s_foundations s)) \<noteq> 52)
           (butlast (history g))"
    by (auto simp: win_inv_def list_all_iff)
  with False l show ?thesis
    by (simp add: handle_undo_def load_state_def win_inv_def foundation_total_def Let_def)
qed

lemma click_stock_frame [simp]:
  "foundations (click_stock g) = foundations g"
  "game_over (click_stock g) = game_over g"
  "dragging (click_stock g) = dragging g"
  "history (click_stock g) = history g"
  "move_count (click_stock g) = move_count g"
  "tableau (click_stock g) = tableau g"
  by (simp_all add: click_stock_def Let_def)

lemma win_inv_snapshot:
  assumes "win_inv g" and "\<not> game_over g"
  shows "list_all (\<lambda>s. \<not> s_game_over s \<and> sum_list (map length (s_foundations s)) \<noteq> 52)
           (history g @ [save_state g])"
  using assms by (simp add: win_inv_def foundation_total_def save_state_def)

lemma handle_mouse_down_cases:
  "(game_over g \<and> handle_mouse_down g ps shuffled = Solitaire_init shuffled)
   \<or> (game_over g \<and> handle_mouse_down g ps shuffled = Inr g)
   \<or> (\<not> game_over g \<and> handle_mouse_down g ps shuffled = Inr (handle_undo g))
   \<or> (\<not> game_over g \<and> handle_mouse_down g ps shuffled = Solitaire_init shuffled)
   \<or> (\<not> game_over g \<and> handle_mouse_down g ps shuffled = Inr (stock_clicked g))
   \<or> (\<not> game_over g \<and> waste g \<noteq> []
        \<and> handle_mouse_down g ps shuffled = Inr (lift_waste g ps))
   \<or> (\<not> game_over g
        \<and> (\<exists>i cindex. find_lift ps (List.enumerate 0 (tableau g)) = Some (i, cindex)
              \<and> handle_mouse_down g ps shuffled = Inr (lift_tableau g ps i cindex)))
   \<or> (\<not> game_over g \<and> handle_mouse_down g ps shuffled = Inr g)"
  by (simp add: handle_mouse_down_def stock_clicked_def Let_def split: option.split)

lemma win_inv_mouse_down:
  assumes inv: "win_inv g" and step: "handle_mouse_down g ps shuffled = Inr g'"
  shows "win_inv g' \<and> (game_over g' \<longrightarrow> game_over g)"
proof -
  have snap: "\<not> game_over g \<Longrightarrow>
     list_all (\<lambda>s. \<not> s_game_over s \<and> sum_list (map length (s_foundations s)) \<noteq> 52)
           (history g @ [save_state g])"
    using inv by (rule win_inv_snapshot)
  have tot: "\<not> game_over g \<Longrightarrow> foundation_total g \<noteq> 52"
    using inv by (simp add: win_inv_def)
  from handle_mouse_down_cases [of g ps shuffled] step
  consider (new) "Solitaire_init shuffled = Inr g'"
    | (none) "g' = g"
    | (undo) "\<not> game_over g" "g' = handle_undo g"
    | (stock) "\<not> game_over g" "g' = stock_clicked g"
    | (waste) "\<not> game_over g" "g' = lift_waste g ps"
    | (tableau) i cindex where "\<not> game_over g" "g' = lift_tableau g ps i cindex"
    by (elim disjE conjE exE) auto
  then show ?thesis
  proof cases
    case new
    then show ?thesis using win_inv_init [OF new] Solitaire_init_fields(5) [OF new] by simp
  next
    case none
    with inv show ?thesis by simp
  next
    case undo
    with win_inv_undo [OF inv undo(1)] show ?thesis
      by simp
  next
    case stock
    then show ?thesis using snap tot
      by (simp add: win_inv_def foundation_total_def stock_clicked_def check_for_win_def Let_def)
  next
    case waste
    then show ?thesis using snap tot
      by (simp add: win_inv_def foundation_total_def lift_waste_def Let_def)
  next
    case (tableau i cindex)
    then show ?thesis using snap tot
      by (simp add: win_inv_def foundation_total_def lift_tableau_def Let_def)
  qed
qed

lemma foundation_drop_Some:
  "foundation_drop g ps c irs = Inr (Some i) \<Longrightarrow> i < length (foundations g)"
  by (induction irs) (auto simp: py_get_def split: if_splits sum.splits)

lemma handle_mouse_up_Inr_cases:
  assumes up: "handle_mouse_up g ps = Inr g'"
    and drag: "dragging g = Some (source, subpile, origin_index, dx, dy)"
  shows "(\<exists>i. i < length (foundations g) \<and> length subpile = 1
            \<and> on_drop_success (placed_on_foundation g i (hd subpile)) source subpile origin_index
                = Inr g')
       \<or> (\<exists>i g1. on_drop_success (placed_on_tableau g i subpile) source subpile origin_index = Inr g1
            \<and> g' = g1\<lparr>dragging := None\<rparr>)
       \<or> (\<exists>g1. on_drop_fail g source subpile origin_index = Inr g1 \<and> g' = g1\<lparr>dragging := None\<rparr>)"
proof -
  have ne: "subpile \<noteq> []"
  proof
    assume "subpile = []"
    with up drag show False by (simp add: handle_mouse_up_def py_get_def)
  qed
  then have top: "py_get subpile 0 = Inr (hd subpile)"
    by (cases subpile) (simp_all add: py_get_def)
  let ?fd = "if length subpile = 1
             then foundation_drop g ps (hd subpile) (List.enumerate 0 foundation_rects)
             else Inr None"
  let ?td = "tableau_drop ps (hd subpile) (List.enumerate 0 (tableau g))"
  show ?thesis
  proof (cases ?fd)
    case (Inl e)
    with up drag top show ?thesis by (simp add: handle_mouse_up_def)
  next
    case (Inr fo)
    show ?thesis
    proof (cases fo)
      case (Some i)
      with Inr have "length subpile = 1"
        and "foundation_drop g ps (hd subpile) (List.enumerate 0 foundation_rects) = Inr (Some i)"
        by (simp_all split: if_splits)
      then have "i < length (foundations g)" "length subpile = 1"
        by (simp_all add: foundation_drop_Some)
      moreover have "on_drop_success (placed_on_foundation g i (hd subpile)) source subpile origin_index
                = Inr g'"
        using up drag top Inr Some by (simp add: handle_mouse_up_def placed_on_foundation_def)
      ultimately show ?thesis by blast
    next
      case None
      show ?thesis
      proof (cases ?td)
        case (Inl e)
        with up drag top Inr None show ?thesis by (simp add: handle_mouse_up_def)
      next
        case td: (Inr to)
        show ?thesis
        proof (cases to)
          case (Some i)
          from up drag top Inr None td Some
          have "(case on_drop_success (placed_on_tableau g i subpile) source subpile origin_index of
                   Inl e \<Rightarrow> Inl e | Inr g1 \<Rightarrow> Inr (g1\<lparr>dragging := None\<rparr>)) = Inr g'"
            by (simp add: handle_mouse_up_def placed_on_tableau_def)
          then show ?thesis by (auto split: sum.splits)
        next
          case no: None
          from up drag top Inr None td no
          have "(case on_drop_fail g source subpile origin_index of
                   Inl e \<Rightarrow> Inl e | Inr g1 \<Rightarrow> Inr (g1\<lparr>dragging := None\<rparr>)) = Inr g'"
            by (simp add: handle_mouse_up_def)
          then show ?thesis by (auto split: sum.splits)
        qed
      qed
    qed
  qed
qed

lemma on_drop_success_frame:
  assumes "on_drop_success g source subpile origin_index = Inr g'"
  shows "foundations g' = foundations g" "history g' = history g" "dragging g' = dragging g"
    "move_count g' = move_count g + 1"
    "game_over g' = (game_over g \<or> foundation_total g = 52)"
    "stock g' = stock g" "waste g' = waste g" "spent g' = spent g"
  using assms
  by (auto simp: on_drop_success_def check_for_win_def foundation_total_def Let_def
      split: if_splits option.splits sum.splits)

lemma on_drop_fail_frame:
  assumes "on_drop_fail g source subpile origin_index = Inr g'"
  shows "foundations g' = foundations g" "history g' = history g" "dragging g' = dragging g"
    "move_count g' = move_count g" "game_over g' = game_over g"
    "stock g' = stock g" "spent g' = spent g"
  using assms
  by (auto simp: on_drop_fail_def split: if_splits option.splits sum.splits)

lemma foundation_total_placed:
  assumes "i < length (foundations g)"
  shows "foundation_total (placed_on_foundation g i c) = foundation_total g + 1"
proof -
  have "\<And>i. i < length fs \<Longrightarrow>
      sum_list (map length (fs[i := fs ! i @ [c]])) = sum_list (map length fs) + 1"
    for fs :: "card list list"
  proof (induction fs)
    case Nil
    then show ?case by simp
  next
    case (Cons f fs)
    then show ?case by (cases i) simp_all
  qed
  with assms show ?thesis
    by (simp add: foundation_total_def placed_on_foundation_def)
qed

lemma win_inv_mouse_up:
  assumes inv: "win_inv g" and up: "handle_mouse_up g ps = Inr g'"
  shows "win_inv g'
     \<and> (game_over g' \<and> \<not> game_over g \<longrightarrow>
           dragging g \<noteq> None \<and> move_count g' = move_count g + 1
           \<and> foundation_total g' = foundation_total g + 1)"
proof (cases "dragging g")
  case None
  with up have "g' = g" by (simp add: handle_mouse_up_def)
  with inv show ?thesis by simp
next
  case (Some d)
  obtain source subpile origin_index dx dy where d: "d = (source, subpile, origin_index, dx, dy)"
    by (cases d)
  with Some have drag: "dragging g = Some (source, subpile, origin_index, dx, dy)" by simp
  from inv drag have ngo: "\<not> game_over g" and tot: "foundation_total g \<noteq> 52"
    and hist: "list_all (\<lambda>s. \<not> s_game_over s \<and> sum_list (map length (s_foundations s)) \<noteq> 52)
           (history g)"
    by (auto simp: win_inv_def)
  from handle_mouse_up_Inr_cases [OF up drag]
  consider (F) i where "i < length (foundations g)"
      "on_drop_success (placed_on_foundation g i (hd subpile)) source subpile origin_index = Inr g'"
    | (T) i g1 where
      "on_drop_success (placed_on_tableau g i subpile) source subpile origin_index = Inr g1"
      "g' = g1\<lparr>dragging := None\<rparr>"
    | (R) g1 where "on_drop_fail g source subpile origin_index = Inr g1" "g' = g1\<lparr>dragging := None\<rparr>"
    by blast
  then show ?thesis
  proof cases
    case (F i)
    note fr = on_drop_success_frame [OF F(2)]
    have t: "foundation_total (placed_on_foundation g i (hd subpile)) = foundation_total g + 1"
      using F(1) by (rule foundation_total_placed)
    have "foundation_total g' = foundation_total g + 1"
      using fr(1) t by (simp add: foundation_total_def)
    then show ?thesis
      using fr t ngo hist drag by (simp add: win_inv_def)
  next
    case (T i g1)
    note fr = on_drop_success_frame [OF T(1)]
    have t: "foundation_total (placed_on_tableau g i subpile) = foundation_total g"
      by (simp add: foundation_total_def)
    have "foundation_total g' = foundation_total g"
      using fr(1) T(2) by (simp add: foundation_total_def)
    then show ?thesis
      using fr t T(2) ngo tot hist by (simp add: win_inv_def)
  next
    case (R g1)
    note fr = on_drop_fail_frame [OF R(1)]
    have "foundation_total g' = foundation_total g"
      using fr(1) R(2) by (simp add: foundation_total_def)
    then show ?thesis
      using fr R(2) ngo tot hist by (simp add: win_inv_def)
  qed
qed

lemma win_inv_dispatch:
  assumes "win_inv g" and "dispatch g e = Inr g'"
  shows "win_inv g'
     \<and> (game_over g' \<and> \<not> game_over g \<longrightarrow>
           (\<exists>ps. e = MOUSEBUTTONUP ps) \<and> dragging g \<noteq> None
           \<and> move_count g' = move_count g + 1
           \<and> foundation_total g' = foundation_total g + 1)"
proof (cases e)
  case (MOUSEBUTTONDOWN ps shuffled)
  with assms win_inv_mouse_down [of g ps shuffled g'] show ?thesis by simp
next
  case (MOUSEBUTTONUP ps)
  with assms win_inv_mouse_up [of g ps g'] show ?thesis by simp
next
  case (MOUSEMOTION ps)
  with assms show ?thesis by (simp add: handle_mouse_motion_def)
qed

lemma reachable_win_inv: "reachable g \<Longrightarrow> win_inv g"
proof (induction rule: reachable_induct)
  case (init shuffled g0)
  then show ?case by (simp add: win_inv_init)
next
  case (step g e g')
  then show ?case using win_inv_dispatch by blast
qed

text \<open>
  C5.  In every state the program reaches, and in the state after any event from it, the
  game-over flag is set exactly when the four foundations together hold 52 cards; so
  after every successful move (a stock click, a successful drop) the flag is true if and
  only if that sum is 52.  The flag goes from false to true only through a pointer-up
  that ends an active drag with a counted move, that is a successful drop, which put
  one more card on a foundation; no other action sets it.
\<close>

theorem win_condition_exact:
  assumes "reachable g" and "dispatch g e = Inr g'"
  shows "(game_over g \<longleftrightarrow> foundation_total g = 52)
     \<and> (game_over g' \<longleftrightarrow> foundation_total g' = 52)
     \<and> (game_over g' \<and> \<not> game_over g \<longrightarrow>
           (\<exists>ps. e = MOUSEBUTTONUP ps) \<and> dragging g \<noteq> None
           \<and> move_count g' = move_count g + 1
           \<and> foundation_total g' = foundation_total g + 1)"
proof -
  from assms(1) have inv: "win_inv g" by (rule reachable_win_inv)
  from win_inv_dispatch [OF inv assms(2)]
  have inv': "win_inv g'"
    and turn: "game_over g' \<and> \<not> game_over g \<longrightarrow>
           (\<exists>ps. e = MOUSEBUTTONUP ps) \<and> dragging g \<noteq> None
           \<and> move_count g' = move_count g + 1
           \<and> foundation_total g' = foundation_total g + 1"
    by simp_all
  from inv have "game_over g \<longleftrightarrow> foundation_total g = 52"
    by (simp add: win_inv_def)
  moreover from inv' have "game_over g' \<longleftrightarrow> foundation_total g' = 52"
    by (simp add: win_inv_def)
  ultimately show ?thesis using turn by blast
qed

theorem win_condition_exact_witness:
  "reachable dealt_game
   \<and> dispatch dealt_game (MOUSEBUTTONDOWN (60, 60) []) = Inr (stock_clicked dealt_game)
   \<and> \<not> game_over dealt_game \<and> foundation_total dealt_game = 0
   \<and> \<not> game_over (stock_clicked dealt_game) \<and> foundation_total (stock_clicked dealt_game) = 0"
proof -
  have r: "reachable dealt_game"
    using is_shuffle_unshuffled Solitaire_init_unshuffled by (rule reachable_init)
  have d: "dispatch dealt_game (MOUSEBUTTONDOWN (60, 60) []) = Inr (stock_clicked dealt_game)"
    by (simp add: handle_mouse_down_def stock_clicked_def dealt_game_def layout_defs Let_def)
  have t: "foundation_total dealt_game = 0" "foundation_total (stock_clicked dealt_game) = 0"
    by (simp_all add: foundation_total_def stock_clicked_def dealt_game_def check_for_win_def
        Let_def)
  from win_condition_exact [OF r d] t r d show ?thesis by simp
qed

section \<open>A pointer-down while a run is being dragged\<close>

text \<open>
  \<open>handle_mouse_down\<close> never looks at \<open>self.dragging\<close>, and \<open>main\<close> hands it every
  \<open>MOUSEBUTTONDOWN\<close> event, whatever the button.  A second button pressed on the undo
  button while the first still holds a run restores the snapshot taken at the lift,
  which has the run in its pile, and leaves the drag tuple with the same run.
\<close>

lemma find_lift_dealt_game: "find_lift (200, 60) (List.enumerate 0 (tableau dealt_game)) = Some (0, 0)"
  by (simp add: dealt_game_def layout_defs enumerate_eq_zip upt_rec)

lemma lift_first_pile_of_dealt_game: "dispatch dealt_game (MOUSEBUTTONDOWN (200, 60) unshuffled_deck) = Inr (lift_tableau dealt_game (200, 60) 0 0)"
proof -
  have "\<not> game_over dealt_game" by (simp add: dealt_game_def)
  moreover have "\<not> collidepoint undo_rect (200, 60)" "\<not> collidepoint reshuffle_rect (200, 60)"
    "\<not> collidepoint stock_rect (200, 60)" by (simp_all add: layout_defs)
  moreover have "waste dealt_game = []" by (simp add: dealt_game_def)
  ultimately show ?thesis using find_lift_dealt_game
    by (simp add: handle_mouse_down_def)
qed

lemma undo_while_dragging: "dispatch (lift_tableau dealt_game (200, 60) 0 0) (MOUSEBUTTONDOWN (20, 620) unshuffled_deck)
   = Inr (dealt_game\<lparr>dragging := Some (FromTableau, [''AH''], Some 0, 40, 10)\<rparr>)"
proof -
  have "\<not> game_over (lift_tableau dealt_game (200, 60) 0 0)"
    by (simp add: dealt_game_def lift_tableau_def Let_def)
  moreover have "collidepoint undo_rect (20, 620)" by (simp add: layout_defs)
  moreover have "handle_undo (lift_tableau dealt_game (200, 60) 0 0)
     = dealt_game\<lparr>dragging := Some (FromTableau, [''AH''], Some 0, 40, 10)\<rparr>"
    by (simp add: handle_undo_def load_state_def save_state_def lift_tableau_def Let_def
        dealt_game_def layout_defs)
  ultimately show ?thesis by (simp add: handle_mouse_down_def)
qed

lemma drop_after_undo_while_dragging: "dispatch undo_in_drag (MOUSEBUTTONUP (0, 0)) = Inr undo_in_drag_dropped"
proof -
  have nv: "no_valid_destination undo_in_drag (0, 0) [''AH'']"
    by (simp add: no_valid_destination_def undo_in_drag_def dealt_game_def layout_defs
        foundation_rects_eval enumerate_eq_zip upt_rec)
  have drag: "dragging undo_in_drag = Some (FromTableau, [''AH''], Some 0, 40, 10)"
    by (simp add: undo_in_drag_def)
  have "handle_mouse_up undo_in_drag (0, 0)
      = Inr (returned undo_in_drag (FromTableau, [''AH''], Some 0, 40, 10))"
    using drag _ _ _ nv by (rule failed_drop) (simp_all add: undo_in_drag_def dealt_game_def)
  moreover have "returned undo_in_drag (FromTableau, [''AH''], Some 0, 40, 10) = undo_in_drag_dropped"
    by (simp add: returned_def undo_in_drag_def undo_in_drag_dropped_def dealt_game_def)
  ultimately show ?thesis by simp
qed

text \<open>
  C1.  The run of the program that breaks card conservation: a fresh game, a pointer-down
  on the face-up card of the first tableau pile (the ace of hearts here), and a
  pointer-down on the undo button before the release.  The state reached holds the ace
  of hearts twice, in the first pile and in the drag run.
\<close>

theorem undo_during_drag_duplicates_card:
  "Solitaire_init unshuffled_deck = Inr dealt_game
   \<and> run_events dealt_game
        [MOUSEBUTTONDOWN (200, 60) unshuffled_deck, MOUSEBUTTONDOWN (20, 620) unshuffled_deck]
      = Inr undo_in_drag
   \<and> reachable undo_in_drag
   \<and> up (tableau undo_in_drag ! 0) = [''AH'']
   \<and> dragging undo_in_drag = Some (FromTableau, [''AH''], Some 0, 40, 10)
   \<and> count (all_cards undo_in_drag) ''AH'' = 2
   \<and> \<not> conserved undo_in_drag"
proof -
  have run: "run_events dealt_game
        [MOUSEBUTTONDOWN (200, 60) unshuffled_deck, MOUSEBUTTONDOWN (20, 620) unshuffled_deck]
      = Inr undo_in_drag"
    using lift_first_pile_of_dealt_game undo_while_dragging by (simp add: undo_in_drag_def)
  have "shuffles_ok
        [MOUSEBUTTONDOWN (200, 60) unshuffled_deck, MOUSEBUTTONDOWN (20, 620) unshuffled_deck]"
    by (simp add: is_shuffle_unshuffled)
  with is_shuffle_unshuffled Solitaire_init_unshuffled run have r: "reachable undo_in_drag"
    unfolding reachable_def by blast
  have c: "count (all_cards undo_in_drag) ''AH'' = 2"
    by (simp add: all_cards_def pile_cards_def drag_cards_def undo_in_drag_def dealt_game_def)
  have "count (mset unshuffled_deck) ''AH'' = 1"
    by (simp add: unshuffled_deck_def deck_values_def deck_suits_def)
  with c have "\<not> conserved undo_in_drag"
    by (auto simp: conserved_def)
  with run r c Solitaire_init_unshuffled show ?thesis
    by (simp add: undo_in_drag_def dealt_game_def)
qed

text \<open>
  C8.  The same run followed by a release away from every pile: the failed drop appends
  the run to the origin pile, which the undo had already restored.  No drag is active
  and the face-up sequence of the first pile is the ace of hearts twice, which is not a
  descending, alternating-colour run.
\<close>

theorem undo_during_drag_breaks_run:
  "Solitaire_init unshuffled_deck = Inr dealt_game
   \<and> run_events dealt_game
        [MOUSEBUTTONDOWN (200, 60) unshuffled_deck, MOUSEBUTTONDOWN (20, 620) unshuffled_deck,
         MOUSEBUTTONUP (0, 0)]
      = Inr undo_in_drag_dropped
   \<and> reachable undo_in_drag_dropped
   \<and> dragging undo_in_drag_dropped = None
   \<and> up (tableau undo_in_drag_dropped ! 0) = [''AH'', ''AH'']
   \<and> \<not> tableau_runs_valid undo_in_drag_dropped"
proof -
  have run: "run_events dealt_game
        [MOUSEBUTTONDOWN (200, 60) unshuffled_deck, MOUSEBUTTONDOWN (20, 620) unshuffled_deck,
         MOUSEBUTTONUP (0, 0)]
      = Inr undo_in_drag_dropped"
    using lift_first_pile_of_dealt_game undo_while_dragging drop_after_undo_while_dragging by (simp add: undo_in_drag_def)
  have "shuffles_ok
        [MOUSEBUTTONDOWN (200, 60) unshuffled_deck, MOUSEBUTTONDOWN (20, 620) unshuffled_deck,
         MOUSEBUTTONUP (0, 0)]"
    by (simp add: is_shuffle_unshuffled)
  with is_shuffle_unshuffled Solitaire_init_unshuffled run have r: "reachable undo_in_drag_dropped"
    unfolding reachable_def by blast
  have "\<not> strictly_descending_alternating [''AH'', ''AH'']"
    by (simp add: rank_index_def get_rank_def DECK_ORDER_def)
  then have "\<not> tableau_runs_valid undo_in_drag_dropped"
    by (simp add: tableau_runs_valid_def undo_in_drag_dropped_def dealt_game_def)
  with run r Solitaire_init_unshuffled show ?thesis
    by (simp add: undo_in_drag_dropped_def dealt_game_def)
qed

section \<open>Snapshots in the store\<close>

lemma agree_onD: "agree_on lo hi h h' \<Longrightarrow> lo \<le> i \<Longrightarrow> i < hi \<Longrightarrow> h' ! i = h ! i"
  by (simp add: agree_on_def list_all_iff)

lemma agree_on_len: "agree_on lo hi h h' \<Longrightarrow> hi \<le> length h'"
  by (simp add: agree_on_def)

lemma agree_on_refl: "hi \<le> length h \<Longrightarrow> agree_on lo hi h h"
  by (simp add: agree_on_def list_all_iff)

text \<open>Agreement with a heap on a range gives agreement with any heap it extends on a sub-range.\<close>

lemma agree_on_sub:
  assumes "agree_on lo hi (h1 @ new) h'" and "lo \<le> lo'" and "hi' \<le> hi" and "hi' \<le> length h1"
  shows "agree_on lo' hi' h1 h'"
  using assms by (auto simp: agree_on_def list_all_iff nth_append)

lemma those_eq_Some: "those xs = Some ys \<longleftrightarrow> xs = map Some ys"
proof (induction xs arbitrary: ys)
  case Nil
  then show ?case by auto
next
  case (Cons x xs)
  then show ?case by (cases x) (auto split: option.splits)
qed

lemma local_readerD:
  "local_reader rd \<Longrightarrow> rd h a = Some v \<Longrightarrow> agree_on 0 (length h) h h' \<Longrightarrow> rd h' a = Some v"
  unfolding local_reader_def reads_in_def by blast

lemma agree_on_extend: "agree_on 0 (length h) h (h @ new)"
  by (simp add: agree_on_def list_all_iff nth_append)

lemma local_reader_extend:
  "local_reader rd \<Longrightarrow> rd h a = Some v \<Longrightarrow> rd (h @ new) a = Some v"
  by (rule local_readerD [OF _ _ agree_on_extend])

lemma local_read_strs: "local_reader read_strs"
  unfolding local_reader_def reads_in_def
proof (intro allI impI)
  fix h a v h'
  assume r: "read_strs h a = Some v" and ag: "agree_on 0 (length h) h h'"
  from r have a: "a < length h" by (simp add: read_strs_def split: if_splits)
  with ag have "h' ! a = h ! a" "a < length h'"
    using agree_onD [OF ag, of a] agree_on_len [OF ag] by simp_all
  with r a show "read_strs h' a = Some v" by (simp add: read_strs_def)
qed

lemma local_read_pile: "local_reader read_pile"
  unfolding local_reader_def reads_in_def
proof (intro allI impI)
  fix h a v h'
  assume r: "read_pile h a = Some v" and ag: "agree_on 0 (length h) h h'"
  from r have a: "a < length h" by (simp add: read_pile_def split: if_splits)
  with ag have c: "h' ! a = h ! a" "a < length h'"
    using agree_onD [OF ag, of a] agree_on_len [OF ag] by simp_all
  from r a obtain d u ds us where p: "h ! a = PileDict d u" "read_strs h d = Some ds"
    "read_strs h u = Some us" "v = \<lparr>down = ds, up = us\<rparr>"
    by (auto simp: read_pile_def split: obj.splits option.splits)
  have "read_strs h' d = Some ds" "read_strs h' u = Some us"
    using local_readerD [OF local_read_strs p(2) ag] local_readerD [OF local_read_strs p(3) ag]
    by simp_all
  with c p show "read_pile h' a = Some v" by (simp add: read_pile_def)
qed

lemma local_read_refs:
  assumes "local_reader rd"
  shows "local_reader (read_refs rd)"
  unfolding local_reader_def reads_in_def
proof (intro allI impI)
  fix h a v h'
  assume r: "read_refs rd h a = Some v" and ag: "agree_on 0 (length h) h h'"
  from r have a: "a < length h" by (simp add: read_refs_def split: if_splits)
  with ag have c: "h' ! a = h ! a" "a < length h'"
    using agree_onD [OF ag, of a] agree_on_len [OF ag] by simp_all
  from r a obtain rs where p: "h ! a = RefList rs" "those (map (rd h) rs) = Some v"
    by (auto simp: read_refs_def split: obj.splits)
  from p(2) have m: "map (rd h) rs = map Some v" by (simp add: those_eq_Some)
  have "map (rd h') rs = map (rd h) rs"
  proof (rule map_cong [OF refl])
    fix r assume "r \<in> set rs"
    then have "rd h r \<in> set (map (rd h) rs)" by simp
    with m obtain x where x: "rd h r = Some x" by auto
    from local_readerD [OF assms x ag] x show "rd h' r = rd h r" by simp
  qed
  with m have "those (map (rd h') rs) = Some v" by (simp add: those_eq_Some)
  with c p show "read_refs rd h' a = Some v" by (simp add: read_refs_def)
qed

lemma copies_strs: "copies copy_strs read_strs"
  unfolding copies_def reads_in_def
proof (intro allI impI)
  fix h a v
  assume r: "read_strs h a = Some v"
  have "copy_strs h a = Some (h @ [StrList v], length h)"
    using r by (simp add: copy_strs_def)
  moreover have "\<forall>h'. agree_on (length h) (length (h @ [StrList v])) (h @ [StrList v]) h'
        \<longrightarrow> read_strs h' (length h) = Some v"
  proof (intro allI impI)
    fix h'
    assume ag: "agree_on (length h) (length (h @ [StrList v])) (h @ [StrList v]) h'"
    from agree_onD [OF ag, of "length h"] agree_on_len [OF ag]
    show "read_strs h' (length h) = Some v" by (simp add: read_strs_def)
  qed
  ultimately show "\<exists>new a'. copy_strs h a = Some (h @ new, a')
      \<and> (\<forall>h'. agree_on (length h) (length (h @ new)) (h @ new) h' \<longrightarrow> read_strs h' a' = Some v)"
    by blast
qed

lemma copiesD:
  assumes "copies cp rd" and "rd h a = Some v"
  obtains new a' where "cp h a = Some (h @ new, a')"
    and "\<And>h'. agree_on (length h) (length (h @ new)) (h @ new) h' \<Longrightarrow> rd h' a' = Some v"
  using assms unfolding copies_def reads_in_def by blast

lemma copiesI:
  assumes "\<And>h a v. rd h a = Some v \<Longrightarrow>
     \<exists>new a'. cp h a = Some (h @ new, a')
       \<and> (\<forall>h'. agree_on (length h) (length (h @ new)) (h @ new) h' \<longrightarrow> rd h' a' = Some v)"
  shows "copies cp rd"
  using assms unfolding copies_def reads_in_def by blast

lemma agree_on_sub2:
  assumes "agree_on lo hi (h @ n1 @ n2) h'" and "hi = length (h @ n1 @ n2)" and "lo \<le> length h"
  shows "agree_on lo (length (h @ n1)) (h @ n1) h'"
    and "agree_on (length (h @ n1)) (length ((h @ n1) @ n2)) ((h @ n1) @ n2) h'"
proof -
  have "agree_on lo hi ((h @ n1) @ n2) h'" using assms(1) by simp
  then show "agree_on lo (length (h @ n1)) (h @ n1) h'"
    by (rule agree_on_sub) (simp_all add: assms(2))
  show "agree_on (length (h @ n1)) (length ((h @ n1) @ n2)) ((h @ n1) @ n2) h'"
    using assms by (auto simp: agree_on_def list_all_iff)
qed

lemma copies_pile: "copies copy_pile read_pile"
proof (rule copiesI)
  fix h a v
  assume r: "read_pile h a = Some v"
  from r have a: "a < length h" by (simp add: read_pile_def split: if_splits)
  from r a obtain d u ds us where p: "h ! a = PileDict d u" "read_strs h d = Some ds"
    "read_strs h u = Some us" "v = \<lparr>down = ds, up = us\<rparr>"
    by (auto simp: read_pile_def split: obj.splits option.splits)
  let ?h1 = "h @ [StrList ds]"
  let ?h2 = "?h1 @ [StrList us]"
  let ?new = "[StrList ds, StrList us, PileDict (length h) (Suc (length h))]"
  have c1: "copy_strs h d = Some (?h1, length h)"
    using p(2) by (simp add: copy_strs_def)
  have "read_strs ?h1 u = Some us"
    using local_reader_extend [OF local_read_strs p(3)] .
  then have c2: "copy_strs ?h1 u = Some (?h2, length ?h1)"
    by (simp add: copy_strs_def)
  have cp: "copy_pile h a = Some (h @ ?new, Suc (Suc (length h)))"
    using a p(1) c1 c2 by (simp add: copy_pile_def)
  have "\<forall>h'. agree_on (length h) (length (h @ ?new)) (h @ ?new) h'
      \<longrightarrow> read_pile h' (Suc (Suc (length h))) = Some v"
  proof (intro allI impI)
    fix h'
    assume ag: "agree_on (length h) (length (h @ ?new)) (h @ ?new) h'"
    from agree_on_len [OF ag] have len: "length h + 3 \<le> length h'" by simp
    from agree_onD [OF ag, of "length h"] have 0: "h' ! length h = StrList ds"
      by (simp add: nth_append)
    from agree_onD [OF ag, of "Suc (length h)"] have 1: "h' ! Suc (length h) = StrList us"
      by (simp add: nth_append)
    from agree_onD [OF ag, of "Suc (Suc (length h))"]
    have 2: "h' ! Suc (Suc (length h)) = PileDict (length h) (Suc (length h))"
      by (simp add: nth_append)
    from len 0 1 2 p(4) show "read_pile h' (Suc (Suc (length h))) = Some v"
      by (simp add: read_pile_def read_strs_def)
  qed
  with cp show "\<exists>new a'. copy_pile h a = Some (h @ new, a')
       \<and> (\<forall>h'. agree_on (length h) (length (h @ new)) (h @ new) h' \<longrightarrow> read_pile h' a' = Some v)"
    by blast
qed

lemma copy_all_copies:
  assumes cp: "copies cp rd" and loc: "local_reader rd"
  shows "map (rd h) rs = map Some vs \<Longrightarrow>
     \<exists>new rs'. copy_all cp h rs = Some (h @ new, rs')
       \<and> (\<forall>h'. agree_on (length h) (length (h @ new)) (h @ new) h' \<longrightarrow>
              map (rd h') rs' = map Some vs)"
proof (induction rs arbitrary: h vs)
  case Nil
  then have "vs = []" by simp
  moreover have "copy_all cp h [] = Some (h @ [], [])" by simp
  ultimately show ?case by (metis list.simps(8))
next
  case (Cons r rs)
  from Cons.prems obtain v vs' where vs: "vs = v # vs'" "rd h r = Some v"
    "map (rd h) rs = map Some vs'"
    by (cases vs) auto
  from copiesD [OF cp vs(2)] obtain n1 r' where c1: "cp h r = Some (h @ n1, r')"
    and rd1: "\<And>h'. agree_on (length h) (length (h @ n1)) (h @ n1) h' \<Longrightarrow> rd h' r' = Some v"
    by blast
  have "map (rd (h @ n1)) rs = map Some vs'"
  proof -
    have "map (rd (h @ n1)) rs = map (rd h) rs"
    proof (rule map_cong [OF refl])
      fix x assume "x \<in> set rs"
      then have "rd h x \<in> set (map (rd h) rs)" by simp
      with vs(3) obtain y where y: "rd h x = Some y" by auto
      from local_reader_extend [OF loc y, of n1] y show "rd (h @ n1) x = rd h x" by simp
    qed
    with vs(3) show ?thesis by simp
  qed
  from Cons.IH [OF this] obtain n2 rs' where c2: "copy_all cp (h @ n1) rs = Some ((h @ n1) @ n2, rs')"
    and rd2: "\<And>h'. agree_on (length (h @ n1)) (length ((h @ n1) @ n2)) ((h @ n1) @ n2) h'
        \<Longrightarrow> map (rd h') rs' = map Some vs'"
    by blast
  have c: "copy_all cp h (r # rs) = Some (h @ (n1 @ n2), r' # rs')"
    using c1 c2 by simp
  have "\<forall>h'. agree_on (length h) (length (h @ (n1 @ n2))) (h @ (n1 @ n2)) h' \<longrightarrow>
              map (rd h') (r' # rs') = map Some vs"
  proof (intro allI impI)
    fix h'
    assume ag: "agree_on (length h) (length (h @ (n1 @ n2))) (h @ (n1 @ n2)) h'"
    note s = agree_on_sub2 [OF ag refl order_refl]
    from rd1 [OF s(1)] rd2 [OF s(2)] vs(1) show "map (rd h') (r' # rs') = map Some vs"
      by simp
  qed
  with c show ?case by blast
qed

lemma copies_refs:
  assumes cp: "copies cp rd" and loc: "local_reader rd"
  shows "copies (copy_refs cp) (read_refs rd)"
proof (rule copiesI)
  fix h a v
  assume r: "read_refs rd h a = Some v"
  from r have a: "a < length h" by (simp add: read_refs_def split: if_splits)
  from r a obtain rs where p: "h ! a = RefList rs" "those (map (rd h) rs) = Some v"
    by (auto simp: read_refs_def split: obj.splits)
  from p(2) have m: "map (rd h) rs = map Some v" by (simp add: those_eq_Some)
  from copy_all_copies [OF cp loc m] obtain n1 rs' where
    c1: "copy_all cp h rs = Some (h @ n1, rs')"
    and rd1: "\<And>h'. agree_on (length h) (length (h @ n1)) (h @ n1) h' \<Longrightarrow>
              map (rd h') rs' = map Some v"
    by blast
  have c: "copy_refs cp h a = Some (h @ (n1 @ [RefList rs']), length (h @ n1))"
    using a p(1) c1 by (simp add: copy_refs_def)
  have "\<forall>h'. agree_on (length h) (length (h @ (n1 @ [RefList rs']))) (h @ (n1 @ [RefList rs'])) h'
      \<longrightarrow> read_refs rd h' (length (h @ n1)) = Some v"
  proof (intro allI impI)
    fix h'
    assume ag: "agree_on (length h) (length (h @ (n1 @ [RefList rs']))) (h @ (n1 @ [RefList rs'])) h'"
    note s = agree_on_sub2 [OF ag refl order_refl]
    from agree_on_len [OF ag] have len: "length (h @ n1) < length h'" by simp
    from agree_onD [OF ag, of "length (h @ n1)"] have "h' ! length (h @ n1) = RefList rs'"
      by (simp add: nth_append)
    with len rd1 [OF s(1)] show "read_refs rd h' (length (h @ n1)) = Some v"
      by (simp add: read_refs_def those_eq_Some)
  qed
  with c show "\<exists>new a'. copy_refs cp h a = Some (h @ new, a')
       \<and> (\<forall>h'. agree_on (length h) (length (h @ new)) (h @ new) h' \<longrightarrow> read_refs rd h' a' = Some v)"
    by blast
qed

lemma agree_on_mid:
  assumes "agree_on lo hi H h'" and "H = pre @ mid @ post" and "lo \<le> length pre"
    and "hi = length H"
  shows "agree_on (length pre) (length (pre @ mid)) (pre @ mid) h'"
  using assms by (auto simp: agree_on_def list_all_iff nth_append)

lemma copy_fields_copies:
  assumes r: "read_state h r = Some v"
  shows "\<exists>new r'. copy_fields h r = Some (h @ new, r')
     \<and> (\<forall>h'. agree_on (length h) (length (h @ new)) (h @ new) h' \<longrightarrow> read_state h' r' = Some v)"
proof -
  from r obtain t s w sp f where
    t: "read_refs read_pile h (r_tableau r) = Some t"
    and s: "read_strs h (r_stock r) = Some s"
    and w: "read_strs h (r_waste r) = Some w"
    and sp: "read_strs h (r_spent r) = Some sp"
    and f: "read_refs read_strs h (r_foundations r) = Some f"
    and v: "v = \<lparr>s_tableau = t, s_stock = s, s_waste = w, s_spent = sp, s_foundations = f,
                s_move_count = r_move_count r, s_game_over = r_game_over r\<rparr>"
    by (auto simp: read_state_def split: option.splits)
  note cp_t = copies_refs [OF copies_pile local_read_pile]
  note cp_f = copies_refs [OF copies_strs local_read_strs]
  note loc_f = local_read_refs [OF local_read_strs]
  from copiesD [OF cp_t t] obtain n1 t' where
    c1: "copy_refs copy_pile h (r_tableau r) = Some (h @ n1, t')"
    and r1: "\<And>h'. agree_on (length h) (length (h @ n1)) (h @ n1) h'
        \<Longrightarrow> read_refs read_pile h' t' = Some t"
    by blast
  let ?h1 = "h @ n1"
  have "read_strs ?h1 (r_stock r) = Some s"
    using local_reader_extend [OF local_read_strs s] .
  from copiesD [OF copies_strs this] obtain n2 s' where
    c2: "copy_strs ?h1 (r_stock r) = Some (?h1 @ n2, s')"
    and r2: "\<And>h'. agree_on (length ?h1) (length (?h1 @ n2)) (?h1 @ n2) h'
        \<Longrightarrow> read_strs h' s' = Some s"
    by blast
  let ?h2 = "h @ n1 @ n2"
  have "read_strs ?h2 (r_waste r) = Some w"
    using local_reader_extend [OF local_read_strs w] .
  from copiesD [OF copies_strs this] obtain n3 w' where
    c3: "copy_strs ?h2 (r_waste r) = Some (?h2 @ n3, w')"
    and r3: "\<And>h'. agree_on (length ?h2) (length (?h2 @ n3)) (?h2 @ n3) h'
        \<Longrightarrow> read_strs h' w' = Some w"
    by blast
  let ?h3 = "h @ n1 @ n2 @ n3"
  have "read_strs ?h3 (r_spent r) = Some sp"
    using local_reader_extend [OF local_read_strs sp] .
  from copiesD [OF copies_strs this] obtain n4 sp' where
    c4: "copy_strs ?h3 (r_spent r) = Some (?h3 @ n4, sp')"
    and r4: "\<And>h'. agree_on (length ?h3) (length (?h3 @ n4)) (?h3 @ n4) h'
        \<Longrightarrow> read_strs h' sp' = Some sp"
    by blast
  let ?h4 = "h @ n1 @ n2 @ n3 @ n4"
  have "read_refs read_strs ?h4 (r_foundations r) = Some f"
    using local_reader_extend [OF loc_f f] .
  from copiesD [OF cp_f this] obtain n5 f' where
    c5: "copy_refs copy_strs ?h4 (r_foundations r) = Some (?h4 @ n5, f')"
    and r5: "\<And>h'. agree_on (length ?h4) (length (?h4 @ n5)) (?h4 @ n5) h'
        \<Longrightarrow> read_refs read_strs h' f' = Some f"
    by blast
  let ?new = "n1 @ n2 @ n3 @ n4 @ n5"
  let ?r' = "\<lparr>r_tableau = t', r_stock = s', r_waste = w', r_spent = sp', r_foundations = f',
              r_move_count = r_move_count r, r_game_over = r_game_over r\<rparr>"
  have c: "copy_fields h r = Some (h @ ?new, ?r')"
    using c1 c2 c3 c4 c5 by (simp add: copy_fields_def)
  have "\<forall>h'. agree_on (length h) (length (h @ ?new)) (h @ ?new) h' \<longrightarrow> read_state h' ?r' = Some v"
  proof (intro allI impI)
    fix h'
    assume ag: "agree_on (length h) (length (h @ ?new)) (h @ ?new) h'"
    have a1: "agree_on (length h) (length (h @ n1)) (h @ n1) h'"
      using agree_on_mid [OF ag, of h n1 "n2 @ n3 @ n4 @ n5"] by simp
    have a2: "agree_on (length ?h1) (length (?h1 @ n2)) (?h1 @ n2) h'"
      using agree_on_mid [OF ag, of "h @ n1" n2 "n3 @ n4 @ n5"] by simp
    have a3: "agree_on (length ?h2) (length (?h2 @ n3)) (?h2 @ n3) h'"
      using agree_on_mid [OF ag, of "h @ n1 @ n2" n3 "n4 @ n5"] by simp
    have a4: "agree_on (length ?h3) (length (?h3 @ n4)) (?h3 @ n4) h'"
      using agree_on_mid [OF ag, of "h @ n1 @ n2 @ n3" n4 n5] by simp
    have a5: "agree_on (length ?h4) (length (?h4 @ n5)) (?h4 @ n5) h'"
      using agree_on_mid [OF ag, of "h @ n1 @ n2 @ n3 @ n4" n5 "[]"] by simp
    from r1 [OF a1] r2 [OF a2] r3 [OF a3] r4 [OF a4] r5 [OF a5] v
    show "read_state h' ?r' = Some v"
      by (simp add: read_state_def)
  qed
  with c show ?thesis by blast
qed

lemma read_state_local:
  assumes "read_state h r = Some v" and "agree_on 0 (length h) h h'"
  shows "read_state h' r = Some v"
proof -
  from assms(1) obtain t s w sp f where
    t: "read_refs read_pile h (r_tableau r) = Some t"
    and s: "read_strs h (r_stock r) = Some s"
    and w: "read_strs h (r_waste r) = Some w"
    and sp: "read_strs h (r_spent r) = Some sp"
    and f: "read_refs read_strs h (r_foundations r) = Some f"
    and v: "v = \<lparr>s_tableau = t, s_stock = s, s_waste = w, s_spent = sp, s_foundations = f,
                s_move_count = r_move_count r, s_game_over = r_game_over r\<rparr>"
    by (auto simp: read_state_def split: option.splits)
  note ag = assms(2)
  from local_readerD [OF local_read_refs [OF local_read_pile] t ag]
    local_readerD [OF local_read_strs s ag] local_readerD [OF local_read_strs w ag]
    local_readerD [OF local_read_strs sp ag]
    local_readerD [OF local_read_refs [OF local_read_strs] f ag] v
  show ?thesis by (simp add: read_state_def)
qed

lemma agree_on_update_below:
  assumes "a < lo" and "hi \<le> length h"
  shows "agree_on lo hi h (h[a := ob])"
  using assms by (simp add: agree_on_def list_all_iff)

lemma agree_on_update_above:
  assumes "hi \<le> a" and "hi \<le> length h"
  shows "agree_on lo hi h (h[a := ob])"
  using assms by (simp add: agree_on_def list_all_iff)

lemma agree_on_trans_extend:
  assumes "agree_on lo hi h h'" and "hi \<le> a"
  shows "agree_on lo hi h ((h' @ new)[a := ob])"
  using assms by (auto simp: agree_on_def list_all_iff nth_append)

text \<open>
  C9.  Let the live state read as the value \<open>v\<close> in the store \<open>h\<close>.  \<open>save_state\<close>
  succeeds, writes no object of \<open>h\<close> (the new store is \<open>h\<close> followed by new objects, so
  the live state still reads as \<open>v\<close>) and returns a snapshot that reads as \<open>v\<close>.  The
  snapshot is independent: it reads as \<open>v\<close> in every store that has kept the objects
  \<open>save_state\<close> allocated, whatever was done to the objects that existed before the
  save, the lists and dictionaries of the live state among them, and whatever was
  allocated since.  In each such store \<open>load_state\<close> succeeds, again writes no existing
  object, and gives the live object fields that read as \<open>v\<close>, in every store that has
  kept the objects \<open>load_state\<close> allocated; and overwriting any of these objects of the
  restored state leaves the snapshot reading as \<open>v\<close>.  In the value model, loading a
  saved state and saving again gives the saved tableau, stock, waste, spent,
  foundations, move count and game-over flag back.
\<close>

theorem snapshot_round_trip:
  assumes live: "read_state h self = Some v"
  shows "\<exists>new snap.
      heap_save_state h self = Some (h @ new, snap)
      \<and> read_state (h @ new) self = Some v
      \<and> (\<forall>a ob. a < length h \<longrightarrow> read_state ((h @ new)[a := ob]) snap = Some v)
      \<and> (\<forall>h'. agree_on (length h) (length (h @ new)) (h @ new) h' \<longrightarrow>
            read_state h' snap = Some v
            \<and> (\<exists>new' self'.
                  heap_load_state h' self snap = Some (h' @ new', self')
                  \<and> (\<forall>h''. agree_on (length h') (length (h' @ new')) (h' @ new') h'' \<longrightarrow>
                        read_state h'' self' = Some v)
                  \<and> (\<forall>a ob. length h' \<le> a \<longrightarrow>
                        read_state ((h' @ new')[a := ob]) snap = Some v)))
      \<and> save_state (load_state g (save_state g0)) = save_state g0"
proof -
  from copy_fields_copies [OF live] obtain new snap where
    c: "copy_fields h self = Some (h @ new, snap)"
    and rd: "\<And>h'. agree_on (length h) (length (h @ new)) (h @ new) h' \<Longrightarrow> read_state h' snap = Some v"
    by blast
  have 1: "heap_save_state h self = Some (h @ new, snap)"
    using c by (simp add: heap_save_state_def)
  have 2: "read_state (h @ new) self = Some v"
    using live agree_on_extend by (rule read_state_local)
  have 3: "\<forall>a ob. a < length h \<longrightarrow> read_state ((h @ new)[a := ob]) snap = Some v"
  proof (intro allI impI)
    fix a ob
    assume "a < length h"
    then have "agree_on (length h) (length (h @ new)) (h @ new) ((h @ new)[a := ob])"
      by (rule agree_on_update_below) simp
    then show "read_state ((h @ new)[a := ob]) snap = Some v" by (rule rd)
  qed
  have 4: "\<forall>h'. agree_on (length h) (length (h @ new)) (h @ new) h' \<longrightarrow>
            read_state h' snap = Some v
            \<and> (\<exists>new' self'.
                  heap_load_state h' self snap = Some (h' @ new', self')
                  \<and> (\<forall>h''. agree_on (length h') (length (h' @ new')) (h' @ new') h'' \<longrightarrow>
                        read_state h'' self' = Some v)
                  \<and> (\<forall>a ob. length h' \<le> a \<longrightarrow>
                        read_state ((h' @ new')[a := ob]) snap = Some v))"
  proof (intro allI impI)
    fix h'
    assume ag: "agree_on (length h) (length (h @ new)) (h @ new) h'"
    from rd [OF ag] have s: "read_state h' snap = Some v" .
    from copy_fields_copies [OF s] obtain new' self' where
      c': "copy_fields h' snap = Some (h' @ new', self')"
      and rd': "\<And>h''. agree_on (length h') (length (h' @ new')) (h' @ new') h''
          \<Longrightarrow> read_state h'' self' = Some v"
      by blast
    have l: "heap_load_state h' self snap = Some (h' @ new', self')"
      using c' by (simp add: heap_load_state_def)
    have m: "\<forall>a ob. length h' \<le> a \<longrightarrow> read_state ((h' @ new')[a := ob]) snap = Some v"
    proof (intro allI impI)
      fix a ob
      assume a: "length h' \<le> a"
      from agree_on_len [OF ag] a have "length (h @ new) \<le> a" by simp
      with ag have "agree_on (length h) (length (h @ new)) (h @ new) ((h' @ new')[a := ob])"
        by (rule agree_on_trans_extend)
      then show "read_state ((h' @ new')[a := ob]) snap = Some v" by (rule rd)
    qed
    from s l rd' m show "read_state h' snap = Some v
            \<and> (\<exists>new' self'.
                  heap_load_state h' self snap = Some (h' @ new', self')
                  \<and> (\<forall>h''. agree_on (length h') (length (h' @ new')) (h' @ new') h'' \<longrightarrow>
                        read_state h'' self' = Some v)
                  \<and> (\<forall>a ob. length h' \<le> a \<longrightarrow>
                        read_state ((h' @ new')[a := ob]) snap = Some v))"
      by blast
  qed
  have 5: "save_state (load_state g (save_state g0)) = save_state g0"
    by (simp add: save_state_def load_state_def)
  from 1 2 3 4 5 show ?thesis by blast
qed

theorem snapshot_round_trip_witness:
  "read_state example_heap example_self = Some example_saved
   \<and> heap_save_state example_heap example_self = Some (example_heap @ example_new, example_snap)
   \<and> read_state ((example_heap @ example_new)[5 := StrList []]) example_snap = Some example_saved
   \<and> read_state ((example_heap @ example_new)[5 := StrList []]) example_self \<noteq> Some example_saved"
proof -
  have live: "read_state example_heap example_self = Some example_saved"
    by (simp add: read_state_def read_refs_def read_pile_def read_strs_def example_heap_def
        example_self_def example_saved_def)
  have save: "heap_save_state example_heap example_self
      = Some (example_heap @ example_new, example_snap)"
    by (simp add: heap_save_state_def copy_fields_def copy_refs_def copy_pile_def copy_strs_def
        read_strs_def example_heap_def example_self_def example_new_def example_snap_def)
  from snapshot_round_trip [OF live] obtain new snap where
    s: "heap_save_state example_heap example_self = Some (example_heap @ new, snap)"
    and m: "\<forall>a ob. a < length example_heap \<longrightarrow>
        read_state ((example_heap @ new)[a := ob]) snap = Some example_saved"
    by blast
  from s save have "new = example_new" "snap = example_snap" by simp_all
  moreover have "5 < length example_heap" by (simp add: example_heap_def)
  ultimately have kept:
    "read_state ((example_heap @ example_new)[5 := StrList []]) example_snap = Some example_saved"
    using m by blast
  have changed:
    "read_state ((example_heap @ example_new)[5 := StrList []]) example_self \<noteq> Some example_saved"
    by (simp add: read_state_def read_refs_def read_pile_def read_strs_def example_heap_def
        example_self_def example_saved_def example_new_def)
  from live save kept changed show ?thesis by simp
qed

section \<open>The deal\<close>

lemma take_Suc_drop:
  "used < length dk \<Longrightarrow> take (Suc n) (drop used dk) = dk ! used # take n (drop (Suc used) dk)"
  by (simp add: Cons_nth_drop_Suc [symmetric])

lemma deal_pile_result:
  "used + length js \<le> length dk \<Longrightarrow>
     \<exists>p'. deal_pile dk i js (p, used) = Inr (p', used + length js)
        \<and> mset (down p') + mset (up p')
            = mset (down p) + mset (up p) + mset (take (length js) (drop used dk))
        \<and> length (up p') = length (up p) + length (filter (\<lambda>j. \<not> j < i) js)"
proof (induction js arbitrary: p used)
  case Nil
  then show ?case by simp
next
  case (Cons j js)
  then have u: "used < length dk" and rest: "Suc used + length js \<le> length dk" by simp_all
  let ?p1 = "if j < i then p\<lparr>down := down p @ [dk ! used]\<rparr> else p\<lparr>up := up p @ [dk ! used]\<rparr>"
  from Cons.IH [OF rest, of ?p1] obtain p' where
    d: "deal_pile dk i js (?p1, Suc used) = Inr (p', Suc used + length js)"
    and m: "mset (down p') + mset (up p')
            = mset (down ?p1) + mset (up ?p1) + mset (take (length js) (drop (Suc used) dk))"
    and l: "length (up p') = length (up ?p1) + length (filter (\<lambda>j. \<not> j < i) js)"
    by blast
  have "deal_pile dk i (j # js) (p, used) = Inr (p', used + length (j # js))"
    using u d by (simp add: py_get_def)
  moreover have "mset (down p') + mset (up p')
            = mset (down p) + mset (up p) + mset (take (length (j # js)) (drop used dk))"
    using m u by (simp add: take_Suc_drop)
  moreover have "length (up p') = length (up p) + length (filter (\<lambda>j. \<not> j < i) (j # js))"
    using l by simp
  ultimately show ?case by blast
qed

lemma filter_upt_last: "length (filter (\<lambda>j. \<not> j < i) [0..<i + 1]) = 1"
  by simp

lemma tableau_cards_list_update:
  assumes "i < length tab"
    and "mset (down p) + mset (up p) = mset (down (tab ! i)) + mset (up (tab ! i)) + extra"
  shows "tableau_cards (tab[i := p]) = tableau_cards tab + extra"
  using assms unfolding tableau_cards_def by (rule tableau_cards_update)

lemma deal_piles_result:
  "distinct rows \<Longrightarrow> list_all (\<lambda>i. i < length tab) rows
   \<Longrightarrow> used + sum_list (map Suc rows) \<le> length dk \<Longrightarrow>
     \<exists>tab'. deal_piles dk rows (tab, used) = Inr (tab', used + sum_list (map Suc rows))
        \<and> length tab' = length tab
        \<and> tableau_cards tab'
            = tableau_cards tab + mset (take (sum_list (map Suc rows)) (drop used dk))
        \<and> list_all (\<lambda>k. length (up (tab' ! k)) = length (up (tab ! k)) + 1) rows
        \<and> list_all (\<lambda>k. k \<in> set rows \<or> tab' ! k = tab ! k) [0..<length tab]"
proof (induction rows arbitrary: tab used)
  case Nil
  then show ?case by (simp add: list_all_iff)
next
  case (Cons i rows)
  from Cons.prems have i: "i < length tab" "i \<notin> set rows" and dr: "distinct rows"
    and lr: "list_all (\<lambda>i. i < length tab) rows"
    and len: "used + Suc i + sum_list (map Suc rows) \<le> length dk"
    by simp_all
  have "used + length [0..<i + 1] \<le> length dk" using len by simp
  from deal_pile_result [OF this, of i "tab ! i"] obtain p' where
    d0: "deal_pile dk i [0..<i + 1] (tab ! i, used) = Inr (p', used + length [0..<i + 1])"
    and m0: "mset (down p') + mset (up p')
            = mset (down (tab ! i)) + mset (up (tab ! i))
              + mset (take (length [0..<i + 1]) (drop used dk))"
    and l0: "length (up p')
            = length (up (tab ! i)) + length (filter (\<lambda>j. \<not> j < i) [0..<i + 1])"
    by blast
  have d: "deal_pile dk i [0..<i + 1] (tab ! i, used) = Inr (p', used + Suc i)"
    using d0 by simp
  have m: "mset (down p') + mset (up p')
            = mset (down (tab ! i)) + mset (up (tab ! i)) + mset (take (Suc i) (drop used dk))"
    using m0 by simp
  have l: "length (up p') = length (up (tab ! i)) + 1"
    using l0 filter_upt_last [of i] by simp
  let ?tab1 = "tab[i := p']"
  have lr1: "list_all (\<lambda>i. i < length ?tab1) rows" using lr by simp
  have len1: "(used + Suc i) + sum_list (map Suc rows) \<le> length dk" using len by simp
  from Cons.IH [OF dr lr1 len1] obtain tab' where
    ds: "deal_piles dk rows (?tab1, used + Suc i)
           = Inr (tab', used + Suc i + sum_list (map Suc rows))"
    and lt: "length tab' = length ?tab1"
    and cs: "tableau_cards tab' = tableau_cards ?tab1
               + mset (take (sum_list (map Suc rows)) (drop (used + Suc i) dk))"
    and ups: "list_all (\<lambda>k. length (up (tab' ! k)) = length (up (?tab1 ! k)) + 1) rows"
    and same: "list_all (\<lambda>k. k \<in> set rows \<or> tab' ! k = ?tab1 ! k) [0..<length ?tab1]"
    by blast
  have r1: "deal_piles dk (i # rows) (tab, used)
      = Inr (tab', used + sum_list (map Suc (i # rows)))"
    using i(1) d ds by (simp add: py_get_def add.assoc del: upt_Suc)
  have r2: "length tab' = length tab" using lt by simp
  have "tableau_cards ?tab1 = tableau_cards tab + mset (take (Suc i) (drop used dk))"
    using i(1) m by (rule tableau_cards_list_update)
  moreover have "take (Suc i + sum_list (map Suc rows)) (drop used dk)
      = take (Suc i) (drop used dk) @ take (sum_list (map Suc rows)) (drop (used + Suc i) dk)"
  proof -
    have "take (Suc i + sum_list (map Suc rows)) (drop used dk)
      = take (Suc i) (drop used dk)
        @ take (sum_list (map Suc rows)) (drop (Suc i) (drop used dk))"
      by (rule take_add)
    also have "drop (Suc i) (drop used dk) = drop (used + Suc i) dk"
      by (simp add: add.commute)
    finally show ?thesis .
  qed
  ultimately have r3: "tableau_cards tab'
      = tableau_cards tab + mset (take (sum_list (map Suc (i # rows))) (drop used dk))"
    using cs by simp
  from same i have "tab' ! i = p'" by (auto simp: list_all_iff)
  with l have ui: "length (up (tab' ! i)) = length (up (tab ! i)) + 1" by simp
  have "list_all (\<lambda>k. length (up (tab' ! k)) = length (up (tab ! k)) + 1) rows"
  proof -
    have "\<And>k. k \<in> set rows \<Longrightarrow> ?tab1 ! k = tab ! k"
      using i(2) by (metis nth_list_update_neq)
    with ups show ?thesis by (simp add: list_all_iff)
  qed
  with ui have r4: "list_all (\<lambda>k. length (up (tab' ! k)) = length (up (tab ! k)) + 1) (i # rows)"
    by simp
  have r5: "list_all (\<lambda>k. k \<in> set (i # rows) \<or> tab' ! k = tab ! k) [0..<length tab]"
    using same by (auto simp: list_all_iff nth_list_update)
  from r1 r2 r3 r4 r5 show ?case by blast
qed

lemma replicate_4: "replicate 4 x = [x, x, x, x]"
  by (simp add: eval_nat_numeral)

lemma sum_rows_7: "sum_list (map Suc [0..<7]) = 28"
  by (simp add: upt_rec)

lemma tableau_cards_empty: "tableau_cards (replicate n \<lparr>down = [], up = []\<rparr>) = {#}"
  by (induction n) (simp_all add: tableau_cards_def)

lemma Solitaire_init_result:
  assumes "28 \<le> length dk"
  shows "\<exists>tab. Solitaire_init dk =
            Inr \<lparr>deck = drop 28 dk, tableau = tab, stock = drop 28 dk, waste = [], spent = [],
                 foundations = replicate 4 [], dragging = None, move_count = 0,
                 history = [], game_over = False\<rparr>
          \<and> length tab = 7
          \<and> tableau_cards tab = mset (take 28 dk)
          \<and> list_all (\<lambda>p. length (up p) = 1) tab"
proof -
  let ?t0 = "replicate 7 \<lparr>down = [], up = []\<rparr>"
  have "distinct [0..<7]" by simp
  moreover have "list_all (\<lambda>i. i < length ?t0) [0..<7]" by (simp add: list_all_iff)
  moreover have "0 + sum_list (map Suc [0..<7]) \<le> length dk"
    using assms by (simp only: sum_rows_7)
  ultimately obtain tab where
    d: "deal_piles dk [0..<7] (?t0, 0) = Inr (tab, 0 + sum_list (map Suc [0..<7]))"
    and l: "length tab = length ?t0"
    and c: "tableau_cards tab
            = tableau_cards ?t0 + mset (take (sum_list (map Suc [0..<7])) (drop 0 dk))"
    and u: "list_all (\<lambda>k. length (up (tab ! k)) = length (up (?t0 ! k)) + 1) [0..<7]"
    using deal_piles_result [of "[0..<7]" ?t0 0 dk] by blast
  from d have 1: "Solitaire_init dk =
            Inr \<lparr>deck = drop 28 dk, tableau = tab, stock = drop 28 dk, waste = [], spent = [],
                 foundations = replicate 4 [], dragging = None, move_count = 0,
                 history = [], game_over = False\<rparr>"
    by (simp only: Solitaire_init_def setup_tableau_def sum_rows_7) simp
  from l have 2: "length tab = 7" by simp
  from c have 3: "tableau_cards tab = mset (take 28 dk)"
    by (simp only: sum_rows_7 tableau_cards_empty) simp
  have 4: "list_all (\<lambda>p. length (up p) = 1) tab"
    unfolding list_all_length
  proof (intro allI impI)
    fix k assume "k < length tab"
    with 2 have k: "k < 7" by simp
    then have "k \<in> set [0..<7]" by simp
    with u have "length (up (tab ! k)) = length (up (?t0 ! k)) + 1"
      unfolding list_all_iff by blast
    with k show "length (up (tab ! k)) = 1" by simp
  qed
  from 1 2 3 4 show ?thesis by blast
qed

lemma is_shuffle_length: "is_shuffle dk \<Longrightarrow> length dk = 52"
proof -
  assume "is_shuffle dk"
  then have "size (mset dk) = size (mset unshuffled_deck)" by (simp add: is_shuffle_def)
  then show ?thesis by (simp add: length_unshuffled_deck)
qed

lemma is_shuffle_set: "is_shuffle dk \<Longrightarrow> set dk = set unshuffled_deck"
  unfolding is_shuffle_def by (rule mset_eq_setD)

lemma pile_in_tableau_cards:
  "p \<in> set tab \<Longrightarrow> set (down p) \<union> set (up p) \<subseteq> set_mset (tableau_cards tab)"
  by (induction tab) (auto simp: tableau_cards_def)

lemma pile_cards_tableau:
  "pile_cards g = mset (stock g) + mset (waste g) + mset (spent g) + tableau_cards (tableau g)
     + sum_list (map mset (foundations g))"
  by (simp add: pile_cards_def tableau_cards_def)

lemma Solitaire_init_shuffle:
  assumes "is_shuffle dk"
  shows "\<exists>g. Solitaire_init dk = Inr g \<and> wf_game g \<and> pile_cards g = mset unshuffled_deck
           \<and> dragging g = None \<and> history g = []
           \<and> list_all (\<lambda>p. length (up p) = 1) (tableau g)"
proof -
  from assms have len: "28 \<le> length dk" by (simp add: is_shuffle_length)
  from Solitaire_init_result [OF len] obtain tab where
    i: "Solitaire_init dk =
            Inr \<lparr>deck = drop 28 dk, tableau = tab, stock = drop 28 dk, waste = [], spent = [],
                 foundations = replicate 4 [], dragging = None, move_count = 0,
                 history = [], game_over = False\<rparr>"
    and l: "length tab = 7"
    and c: "tableau_cards tab = mset (take 28 dk)"
    and u: "list_all (\<lambda>p. length (up p) = 1) tab"
    by blast
  let ?g = "\<lparr>deck = drop 28 dk, tableau = tab, stock = drop 28 dk, waste = [], spent = [],
                 foundations = replicate 4 [], dragging = None, move_count = 0,
                 history = [], game_over = False\<rparr>"
  have v: "\<And>x. x \<in> set dk \<Longrightarrow> valid_card x"
    using is_shuffle_set [OF assms] by (simp add: valid_card_def)
  have "list_all pile_ok tab"
    unfolding list_all_iff [of pile_ok] pile_ok_def
  proof (intro ballI conjI)
    fix p assume p: "p \<in> set tab"
    from pile_in_tableau_cards [OF p] c have "set (down p) \<union> set (up p) \<subseteq> set (take 28 dk)"
      by simp
    then have "set (down p) \<union> set (up p) \<subseteq> set dk"
      using set_take_subset [of 28 dk] by blast
    with v have "\<forall>x\<in>set (down p). valid_card x" "\<forall>x\<in>set (up p). valid_card x" by blast+
    then show "list_all valid_card (down p)" "list_all valid_card (up p)"
      by (simp_all add: list_all_iff)
  qed
  moreover have "list_all valid_card (drop 28 dk)"
    using v set_drop_subset [of 28 dk] by (auto simp: list_all_iff)
  ultimately have wf: "wf_game ?g"
    using l by (simp add: wf_game_def wf_piles_def replicate_4)
  have "mset (take 28 dk) + mset (drop 28 dk) = mset dk"
    by (metis append_take_drop_id mset_append)
  then have pc: "pile_cards ?g = mset unshuffled_deck"
    using c assms by (simp add: pile_cards_tableau is_shuffle_def replicate_4 ac_simps)
  from i wf pc u show ?thesis by simp
qed

section \<open>Well-formed states are kept\<close>

lemma list_all_update: "list_all P xs \<Longrightarrow> P y \<Longrightarrow> list_all P (xs[i := y])"
  unfolding list_all_iff using set_update_subset_insert [of xs i y] by blast

lemma list_all_nth: "list_all P xs \<Longrightarrow> i < length xs \<Longrightarrow> P (xs ! i)"
  by (simp add: list_all_length)

lemma wf_game_counted [simp]: "wf_game (counted g) = wf_game g"
  by (simp add: wf_game_def)

lemma wf_game_no_drag: "wf_game g \<Longrightarrow> wf_game (g\<lparr>dragging := None\<rparr>)"
  by (simp add: wf_game_def)

lemma wf_game_tableau_update:
  assumes "wf_game g" and "pile_ok p"
  shows "wf_game (g\<lparr>tableau := (tableau g)[i := p]\<rparr>)"
  using assms by (simp add: wf_game_def wf_piles_def list_all_update)

lemma wf_game_pile: "wf_game g \<Longrightarrow> i < length (tableau g) \<Longrightarrow> pile_ok (tableau g ! i)"
  by (simp add: wf_game_def wf_piles_def list_all_nth)

lemma wf_game_flipped:
  assumes wf: "wf_game g" and oi: "oi < length (tableau g)" and ne: "down (tableau g ! oi) \<noteq> []"
  shows "wf_game (flipped g oi)"
proof -
  let ?p = "tableau g ! oi"
  from wf_game_pile [OF wf oi] have ok: "list_all valid_card (down ?p)" "list_all valid_card (up ?p)"
    by (simp_all add: pile_ok_def)
  from ok(1) ne have "valid_card (last (down ?p))" by (simp add: list_all_iff)
  moreover from ok(1) have "list_all valid_card (butlast (down ?p))"
    by (auto simp: list_all_iff dest: in_set_butlastD)
  ultimately have "pile_ok (?p\<lparr>up := up ?p @ [last (down ?p)], down := butlast (down ?p)\<rparr>)"
    using ok(2) by (simp add: pile_ok_def)
  with wf show ?thesis unfolding flipped_def by (rule wf_game_tableau_update)
qed

lemma wf_game_placed_on_tableau:
  assumes wf: "wf_game g" and i: "i < length (tableau g)" and v: "list_all valid_card subpile"
  shows "wf_game (placed_on_tableau g i subpile)"
proof -
  let ?p = "tableau g ! i"
  from wf_game_pile [OF wf i] v have "pile_ok (?p\<lparr>up := up ?p @ subpile\<rparr>)"
    by (simp add: pile_ok_def)
  with wf show ?thesis unfolding placed_on_tableau_def by (rule wf_game_tableau_update)
qed

lemma wf_game_placed_on_foundation:
  assumes wf: "wf_game g" and i: "i < length (foundations g)" and v: "valid_card c"
  shows "wf_game (placed_on_foundation g i c)"
proof -
  from wf have f: "list_all (list_all valid_card) (foundations g)"
    by (simp add: wf_game_def wf_piles_def)
  from list_all_nth [OF f i] v have "list_all valid_card (foundations g ! i @ [c])" by simp
  with f have "list_all (list_all valid_card) ((foundations g)[i := foundations g ! i @ [c]])"
    by (rule list_all_update)
  with wf show ?thesis
    by (simp add: placed_on_foundation_def wf_game_def wf_piles_def)
qed

lemma wf_game_returned:
  assumes wf: "wf_game g" and drag: "dragging g = Some (source, subpile, origin_index, dx, dy)"
  shows "wf_game (returned g (source, subpile, origin_index, dx, dy))"
proof -
  note D = wf_game_dragD [OF wf drag]
  show ?thesis
  proof (cases source)
    case FromWaste
    with wf D(2) show ?thesis
      by (simp add: returned_def wf_game_def wf_piles_def)
  next
    case FromTableau
    with D(4) obtain oi where oi: "origin_index = Some oi" "oi < length (tableau g)" by blast
    have "returned g (source, subpile, origin_index, dx, dy)
        = (placed_on_tableau g oi subpile)\<lparr>dragging := None\<rparr>"
      using FromTableau oi by (simp add: returned_def placed_on_tableau_def)
    with wf_game_no_drag [OF wf_game_placed_on_tableau [OF wf oi(2) D(2)]] show ?thesis by simp
  qed
qed

lemma handle_mouse_up_wf:
  assumes wf: "wf_game g"
  shows "\<exists>g'. handle_mouse_up g ps = Inr g' \<and> wf_game g'"
proof (cases "dragging g")
  case None
  with wf show ?thesis by (simp add: handle_mouse_up_def)
next
  case (Some d)
  obtain source subpile origin_index dx dy where "d = (source, subpile, origin_index, dx, dy)"
    by (cases d)
  with Some have drag: "dragging g = Some (source, subpile, origin_index, dx, dy)" by simp
  note D = wf_game_dragD [OF wf drag]
  from wf drag show ?thesis
  proof (cases rule: handle_mouse_up_elim [where ps = ps])
    case (foundation i c)
    from foundation(2) D(3) have "valid_card c" by simp
    with wf foundation(1) D(6) have "wf_game (placed_on_foundation g i c)"
      by (simp add: wf_game_placed_on_foundation)
    with foundation(4) show ?thesis by simp
  next
    case (foundation_flip i c oi)
    from foundation_flip(2) D(3) have "valid_card c" by simp
    with wf foundation_flip(1) D(6) have "wf_game (placed_on_foundation g i c)"
      by (simp add: wf_game_placed_on_foundation)
    then have "wf_game (flipped (placed_on_foundation g i c) oi)"
      using foundation_flip D(5) by (intro wf_game_flipped) simp_all
    with foundation_flip(9) show ?thesis by simp
  next
    case (tableau i)
    from wf tableau(1) D(5) D(2) have "wf_game (placed_on_tableau g i subpile)"
      by (simp add: wf_game_placed_on_tableau)
    then have "wf_game ((counted (placed_on_tableau g i subpile))\<lparr>dragging := None\<rparr>)"
      by (intro wf_game_no_drag) simp
    with tableau(3) show ?thesis by simp
  next
    case (tableau_flip i oi)
    from wf tableau_flip(1) D(5) D(2) have "wf_game (placed_on_tableau g i subpile)"
      by (simp add: wf_game_placed_on_tableau)
    then have "wf_game (flipped (placed_on_tableau g i subpile) oi)"
      using tableau_flip D(5) by (intro wf_game_flipped) simp_all
    then have "wf_game ((counted (flipped (placed_on_tableau g i subpile) oi))\<lparr>dragging := None\<rparr>)"
      by (intro wf_game_no_drag) simp
    with tableau_flip(9) show ?thesis by simp
  next
    case returned
    with wf_game_returned [OF wf drag] show ?thesis by simp
  qed
qed

lemma wf_saved_save_state:
  "wf_saved (save_state g) = wf_piles (tableau g) (stock g) (waste g) (spent g) (foundations g)"
  by (simp add: wf_saved_def save_state_def)

lemma wf_game_snapshot:
  "wf_game g \<Longrightarrow> wf_game (g\<lparr>history := history g @ [save_state g]\<rparr>)"
  by (simp add: wf_game_def wf_saved_save_state)

lemma wf_game_undo:
  assumes "wf_game g"
  shows "wf_game (handle_undo g)"
proof (cases "history g = []")
  case True
  with assms show ?thesis by (simp add: handle_undo_def)
next
  case False
  from assms have h: "list_all wf_saved (history g)" by (simp add: wf_game_def)
  with False have "wf_saved (last (history g))" by (simp add: list_all_iff)
  moreover from h have "list_all wf_saved (butlast (history g))"
    by (auto simp: list_all_iff dest: in_set_butlastD)
  ultimately show ?thesis
    using assms False
    by (simp add: handle_undo_def load_state_def wf_game_def wf_saved_def Let_def)
qed

lemma wf_piles_click_stock:
  assumes "wf_piles (tableau g) (stock g) (waste g) (spent g) (foundations g)"
  shows "wf_piles (tableau (click_stock g)) (stock (click_stock g)) (waste (click_stock g))
           (spent (click_stock g)) (foundations (click_stock g))"
proof (cases "stock g = []")
  case True
  with assms show ?thesis
    by (auto simp: click_stock_def wf_piles_def)
next
  case False
  from assms have s: "list_all valid_card (stock g)" and w: "list_all valid_card (waste g)"
    by (simp_all add: wf_piles_def)
  from s False have 1: "valid_card (last (stock g))" by (simp add: list_all_iff)
  from s have 2: "list_all valid_card (butlast (stock g))"
    by (auto simp: list_all_iff dest: in_set_butlastD)
  have 3: "length (waste g) = 3 \<Longrightarrow> valid_card (hd (waste g)) \<and> list_all valid_card (tl (waste g))"
    using w by (cases "waste g") simp_all
  from assms False 1 2 3 show ?thesis
    by (auto simp: click_stock_def wf_piles_def Let_def)
qed

lemma wf_game_stock_clicked:
  assumes "wf_game g"
  shows "wf_game (stock_clicked g)"
proof -
  let ?g1 = "g\<lparr>history := history g @ [save_state g]\<rparr>"
  from wf_game_snapshot [OF assms] have wf1: "wf_game ?g1" .
  then have "wf_piles (tableau ?g1) (stock ?g1) (waste ?g1) (spent ?g1) (foundations ?g1)"
    by (simp add: wf_game_def)
  from wf_piles_click_stock [OF this] wf1 have "wf_game (click_stock ?g1)"
    by (simp add: wf_game_def)
  then show ?thesis
    by (simp add: stock_clicked_def check_for_win_def wf_game_def Let_def)
qed

lemma wf_game_lift_waste:
  assumes wf: "wf_game g" and ne: "waste g \<noteq> []"
  shows "wf_game (lift_waste g ps)"
proof -
  from wf have w: "list_all valid_card (waste g)" by (simp add: wf_game_def wf_piles_def)
  with ne have 1: "valid_card (last (waste g))" by (simp add: list_all_iff)
  from w have 2: "list_all valid_card (butlast (waste g))"
    by (auto simp: list_all_iff dest: in_set_butlastD)
  from wf_game_snapshot [OF wf] 1 2 show ?thesis
    by (simp add: lift_waste_def wf_game_def wf_piles_def Let_def)
qed

lemma wf_game_lift_tableau:
  assumes wf: "wf_game g" and i: "i < length (tableau g)"
    and c: "cindex < length (up (tableau g ! i))"
  shows "wf_game (lift_tableau g ps i cindex)"
proof -
  let ?p = "tableau g ! i"
  let ?g1 = "g\<lparr>history := history g @ [save_state g]\<rparr>"
  from wf_game_pile [OF wf i] have ok: "list_all valid_card (down ?p)" "list_all valid_card (up ?p)"
    by (simp_all add: pile_ok_def)
  from ok(2) have t: "list_all valid_card (take cindex (up ?p))"
    and d: "list_all valid_card (drop cindex (up ?p))"
    by (auto simp: list_all_iff dest: in_set_takeD in_set_dropD)
  from ok(1) t have "pile_ok (?p\<lparr>up := take cindex (up ?p)\<rparr>)" by (simp add: pile_ok_def)
  with wf_game_snapshot [OF wf]
  have "wf_game (?g1\<lparr>tableau := (tableau ?g1)[i := ?p\<lparr>up := take cindex (up ?p)\<rparr>]\<rparr>)"
    by (rule wf_game_tableau_update)
  moreover from wf i have "i < 7" by (simp add: wf_game_def wf_piles_def)
  ultimately show ?thesis
    using d c by (simp add: lift_tableau_def wf_game_def Let_def)
qed

lemma handle_mouse_down_wf:
  assumes wf: "wf_game g" and sh: "is_shuffle shuffled"
  shows "\<exists>g'. handle_mouse_down g ps shuffled = Inr g' \<and> wf_game g'"
proof -
  from Solitaire_init_shuffle [OF sh] obtain g0 where
    new: "Solitaire_init shuffled = Inr g0" "wf_game g0" by blast
  from handle_mouse_down_cases [of g ps shuffled] show ?thesis
  proof (elim disjE conjE exE)
    assume "handle_mouse_down g ps shuffled = Solitaire_init shuffled"
    with new show ?thesis by simp
  next
    assume "handle_mouse_down g ps shuffled = Inr g"
    with wf show ?thesis by simp
  next
    assume "handle_mouse_down g ps shuffled = Inr (handle_undo g)"
    with wf_game_undo [OF wf] show ?thesis by simp
  next
    assume "handle_mouse_down g ps shuffled = Solitaire_init shuffled"
    with new show ?thesis by simp
  next
    assume "handle_mouse_down g ps shuffled = Inr (stock_clicked g)"
    with wf_game_stock_clicked [OF wf] show ?thesis by simp
  next
    assume "waste g \<noteq> []" "handle_mouse_down g ps shuffled = Inr (lift_waste g ps)"
    with wf_game_lift_waste [OF wf] show ?thesis by simp
  next
    fix i cindex
    assume fl: "find_lift ps (List.enumerate 0 (tableau g)) = Some (i, cindex)"
      and d: "handle_mouse_down g ps shuffled = Inr (lift_tableau g ps i cindex)"
    from find_lift_enumerate [OF fl] wf_game_lift_tableau [OF wf] d show ?thesis by simp
  next
    assume "handle_mouse_down g ps shuffled = Inr g"
    with wf show ?thesis by simp
  qed
qed

lemma dispatch_wf:
  assumes wf: "wf_game g" and ok: "shuffles_ok [e]"
  shows "\<exists>g'. dispatch g e = Inr g' \<and> wf_game g'"
proof (cases e)
  case (MOUSEBUTTONDOWN ps shuffled)
  with ok have "is_shuffle shuffled" by simp
  from handle_mouse_down_wf [OF wf this] MOUSEBUTTONDOWN show ?thesis by simp
next
  case (MOUSEBUTTONUP ps)
  with handle_mouse_up_wf [OF wf] show ?thesis by simp
next
  case (MOUSEMOTION ps)
  with wf show ?thesis by (simp add: handle_mouse_motion_def)
qed

lemma reachable_wf: "reachable g \<Longrightarrow> wf_game g"
proof (induction rule: reachable_induct)
  case (init shuffled g0)
  with Solitaire_init_shuffle [OF init(1)] show ?case by auto
next
  case (step g e g')
  with dispatch_wf [OF step(1,2)] show ?case by auto
qed

text \<open>
  Every state the program reaches is well-formed, and no handler raises there:
  every event (a \<open>MOUSEBUTTONDOWN\<close> with a shuffle of the 52 cards for a possible new
  game) leads to a next state, which is reachable in turn.
\<close>

theorem no_event_raises:
  assumes "reachable g" and "shuffles_ok [e]"
  shows "wf_game g \<and> (\<exists>g'. dispatch g e = Inr g' \<and> reachable g')"
proof -
  from assms(1) have wf: "wf_game g" by (rule reachable_wf)
  from dispatch_wf [OF wf assms(2)] obtain g' where d: "dispatch g e = Inr g'" by blast
  from reachable_step [OF assms d] d wf show ?thesis by blast
qed

theorem no_event_raises_witness:
  "reachable dealt_game \<and> shuffles_ok [MOUSEBUTTONUP (0, 0)] \<and> wf_game dealt_game
   \<and> dispatch dealt_game (MOUSEBUTTONUP (0, 0)) = Inr dealt_game"
proof -
  have r: "reachable dealt_game"
    using is_shuffle_unshuffled Solitaire_init_unshuffled by (rule reachable_init)
  have s: "shuffles_ok [MOUSEBUTTONUP (0, 0)]" by simp
  have d: "dispatch dealt_game (MOUSEBUTTONUP (0, 0)) = Inr dealt_game"
    by (simp add: handle_mouse_up_def dealt_game_def)
  from no_event_raises [OF r s] r s d show ?thesis by simp
qed

section \<open>Play without a press during a drag\<close>

lemma is_valid_tableau_move_last:
  "t \<noteq> [] \<Longrightarrow> is_valid_tableau_move t c = is_valid_tableau_move [last t] c"
  by (simp add: is_valid_tableau_move_def)

lemma valid_run_Cons:
  "valid_run (x # ys) = (valid_run ys \<and> (ys = [] \<or> is_valid_tableau_move [x] (hd ys) = Inr True))"
  by (cases ys) auto

lemma valid_run_append:
  "valid_run (xs @ ys) =
     (valid_run xs \<and> valid_run ys
      \<and> (xs = [] \<or> ys = [] \<or> is_valid_tableau_move [last xs] (hd ys) = Inr True))"
proof (induction xs)
  case Nil
  then show ?case by simp
next
  case (Cons x xs)
  show ?case
  proof (cases "xs = []")
    case True
    then show ?thesis by (simp add: valid_run_Cons)
  next
    case False
    then have "hd (xs @ ys) = hd xs" by simp
    with False Cons show ?thesis
      by (simp add: valid_run_Cons [of x "xs @ ys"] valid_run_Cons [of x xs]) blast
  qed
qed

lemma valid_run_take_drop:
  assumes "valid_run xs"
  shows "valid_run (take n xs)" and "valid_run (drop n xs)"
proof -
  from assms have "valid_run (take n xs @ drop n xs)" by simp
  then show "valid_run (take n xs)" and "valid_run (drop n xs)"
    unfolding valid_run_append by simp_all
qed

lemma valid_run_placed:
  assumes "valid_run u" and "valid_run subpile" and "subpile \<noteq> []"
    and "is_valid_tableau_move u (hd subpile) = Inr True"
  shows "valid_run (u @ subpile)"
proof (cases "u = []")
  case True
  with assms show ?thesis by simp
next
  case False
  with assms(4) have "is_valid_tableau_move [last u] (hd subpile) = Inr True"
    by (simp add: is_valid_tableau_move_last [symmetric])
  with assms show ?thesis by (simp add: valid_run_append)
qed

lemma valid_move_strict:
  assumes "is_valid_tableau_move [x] y = Inr True"
  shows "(case (rank_index (get_rank y), rank_index (get_rank x)) of
            (Inr a, Inr b) \<Rightarrow> a < b
          | _ \<Rightarrow> False)
         \<and> is_opposite_color y x = Inr True"
  using assms
  by (auto simp: is_valid_tableau_move_def Let_def split: sum.splits if_splits)

lemma valid_run_strict: "valid_run run \<Longrightarrow> strictly_descending_alternating run"
proof (induction run rule: valid_run.induct)
  case (1 x y rest)
  then show ?case using valid_move_strict [of x y] by simp
qed simp_all

lemma runs_ok_valid: "runs_ok (tableau g) \<Longrightarrow> tableau_runs_valid g"
  by (auto simp: runs_ok_def tableau_runs_valid_def list_all_iff valid_run_strict)

lemma runs_ok_update: "runs_ok tab \<Longrightarrow> valid_run (up p) \<Longrightarrow> runs_ok (tab[i := p])"
  unfolding runs_ok_def by (rule list_all_update)

lemma runs_ok_nth: "runs_ok tab \<Longrightarrow> i < length tab \<Longrightarrow> valid_run (up (tab ! i))"
  unfolding runs_ok_def by (drule list_all_nth) simp_all

lemma tableau_flipped:
  "tableau (flipped g oi) =
     (tableau g)[oi := (tableau g ! oi)
        \<lparr>up := up (tableau g ! oi) @ [last (down (tableau g ! oi))],
         down := butlast (down (tableau g ! oi))\<rparr>]"
  by (simp add: flipped_def)

lemma runs_ok_flipped:
  assumes "runs_ok (tableau g)" and "up (tableau g ! oi) = []"
  shows "runs_ok (tableau (flipped g oi))"
  unfolding tableau_flipped using assms(1) by (rule runs_ok_update) (simp add: assms(2))

lemma sound_no_drag:
  "dragging g = None \<Longrightarrow>
     sound g = (pile_cards g = mset unshuffled_deck \<and> runs_ok (tableau g)
                \<and> list_all saved_sound (history g))"
  by (simp add: sound_def conserved_def all_cards_def drag_cards_def)

lemma sound_dragD:
  assumes "sound g" and "dragging g = Some (source, subpile, origin_index, dx, dy)"
  shows "pile_cards g + mset subpile = mset unshuffled_deck" and "runs_ok (tableau g)"
    and "valid_run subpile" and "list_all saved_sound (history g)"
    and "\<And>oi. source = FromTableau \<Longrightarrow> origin_index = Some oi
           \<Longrightarrow> valid_run (up (tableau g ! oi) @ subpile)"
  using assms
  by (auto simp: sound_def conserved_def all_cards_def drag_cards_def split: option.splits)

lemma sound_after_drop:
  assumes wf: "wf_game g" and snd: "sound g"
    and drag: "dragging g = Some (source, subpile, origin_index, dx, dy)"
    and up: "handle_mouse_up g ps = Inr g'"
  shows "sound g'"
proof -
  note D = wf_game_dragD [OF wf drag]
  note S = sound_dragD [OF snd drag]
  from wf drag show ?thesis
  proof (cases rule: handle_mouse_up_elim [where ps = ps])
    case (foundation i c)
    let ?g = "counted (placed_on_foundation g i c)"
    from foundation(4) up have g': "g' = ?g" by simp
    have "pile_cards ?g = mset unshuffled_deck"
      using foundation(1,2) D(6) S(1) by (simp add: pile_cards_placed_on_foundation)
    moreover have "runs_ok (tableau ?g)" using S(2) by simp
    moreover have "list_all saved_sound (history ?g)" using S(4) by simp
    moreover have "dragging ?g = None" by simp
    ultimately show ?thesis unfolding g' by (simp only: sound_no_drag)
  next
    case (foundation_flip i c oi)
    let ?g = "counted (flipped (placed_on_foundation g i c) oi)"
    from foundation_flip(9) up have g': "g' = ?g" by simp
    have "pile_cards ?g = mset unshuffled_deck"
      using foundation_flip D(5,6) S(1)
      by (simp add: pile_cards_placed_on_foundation pile_cards_flipped)
    moreover have "runs_ok (tableau ?g)"
      using S(2) foundation_flip(7) by (simp add: runs_ok_flipped)
    moreover have "list_all saved_sound (history ?g)" using S(4) by simp
    moreover have "dragging ?g = None" by simp
    ultimately show ?thesis unfolding g' by (simp only: sound_no_drag)
  next
    case (tableau i)
    let ?pt = "placed_on_tableau g i subpile"
    let ?g = "(counted ?pt)\<lparr>dragging := None\<rparr>"
    from tableau(3) up have g': "g' = ?g" by simp
    have i: "i < length (tableau g)" using tableau(1) D(5) by simp
    have "pile_cards ?g = mset unshuffled_deck"
      using i S(1) by (simp add: pile_cards_placed_on_tableau)
    moreover have r: "runs_ok (tableau ?pt)"
    proof -
      have "valid_run (up (tableau g ! i) @ subpile)"
        using runs_ok_nth [OF S(2) i] S(3) D(1) tableau(2) by (rule valid_run_placed)
      with S(2) show ?thesis by (simp add: runs_ok_update)
    qed
    then have "runs_ok (tableau ?g)" by simp
    moreover have "list_all saved_sound (history ?g)" using S(4) by simp
    moreover have "dragging ?g = None" by simp
    ultimately show ?thesis unfolding g' by (simp only: sound_no_drag)
  next
    case (tableau_flip i oi)
    let ?pt = "placed_on_tableau g i subpile"
    let ?g = "(counted (flipped ?pt oi))\<lparr>dragging := None\<rparr>"
    from tableau_flip(9) up have g': "g' = ?g" by simp
    have i: "i < length (tableau g)" using tableau_flip(1) D(5) by simp
    have "pile_cards ?g = mset unshuffled_deck"
      using i tableau_flip D(5) S(1)
      by (simp add: pile_cards_placed_on_tableau pile_cards_flipped)
    moreover have "runs_ok (tableau ?pt)"
    proof -
      have "valid_run (up (tableau g ! i) @ subpile)"
        using runs_ok_nth [OF S(2) i] S(3) D(1) tableau_flip(2) by (rule valid_run_placed)
      with S(2) show ?thesis by (simp add: runs_ok_update)
    qed
    then have "runs_ok (tableau (flipped ?pt oi))"
      using tableau_flip(6,7) by (intro runs_ok_flipped) simp_all
    then have "runs_ok (tableau ?g)" by simp
    moreover have "list_all saved_sound (history ?g)" using S(4) by simp
    moreover have "dragging ?g = None" by simp
    ultimately show ?thesis unfolding g' by (simp only: sound_no_drag)
  next
    case returned
    let ?g = "returned g (source, subpile, origin_index, dx, dy)"
    from returned up have g': "g' = ?g" by simp
    have "pile_cards ?g = mset unshuffled_deck"
      using D(4) S(1) by (simp add: pile_cards_returned)
    moreover have "runs_ok (tableau ?g)"
    proof (cases source)
      case FromWaste
      with S(2) show ?thesis by (simp add: returned_def)
    next
      case FromTableau
      with D(4) obtain oi where oi: "origin_index = Some oi" "oi < length (tableau g)" by blast
      from S(5) [OF FromTableau oi(1)] S(2) FromTableau oi show ?thesis
        by (simp add: returned_def runs_ok_update)
    qed
    moreover have "list_all saved_sound (history ?g)" using S(4) by simp
    moreover have "dragging ?g = None" by simp
    ultimately show ?thesis unfolding g' by (simp only: sound_no_drag)
  qed
qed

lemma saved_sound_save_state:
  "saved_sound (save_state g) = (pile_cards g = mset unshuffled_deck \<and> runs_ok (tableau g))"
  by (simp add: saved_sound_def save_state_def pile_cards_tableau)

lemma pile_cards_click_stock: "pile_cards (click_stock g) = pile_cards g"
proof (cases "stock g = []")
  case True
  then show ?thesis by (simp add: click_stock_def pile_cards_def)
next
  case False
  then have s: "mset (butlast (stock g)) + {#last (stock g)#} = mset (stock g)"
  proof -
    have "mset (butlast (stock g) @ [last (stock g)]) = mset (stock g)"
      using False by simp
    then show ?thesis by simp
  qed
  have w: "length (waste g) = 3 \<Longrightarrow> mset (tl (waste g)) + {#hd (waste g)#} = mset (waste g)"
    by (cases "waste g") simp_all
  show ?thesis
  proof (cases "length (waste g) = 3")
    case True
    from w [OF True] s False True show ?thesis
      by (simp add: click_stock_def pile_cards_def Let_def)
        (metis (no_types, lifting) add.assoc add.commute add_mset_add_single)
  next
    case no: False
    from s False no show ?thesis
      by (simp add: click_stock_def pile_cards_def Let_def)
  qed
qed

lemma sound_undo:
  assumes snd: "sound g" and nd: "dragging g = None"
  shows "sound (handle_undo g)"
proof (cases "history g = []")
  case True
  with snd show ?thesis by (simp add: handle_undo_def)
next
  case False
  from snd nd have h: "list_all saved_sound (history g)" by (simp add: sound_no_drag)
  with False have l: "saved_sound (last (history g))" by (simp add: list_all_iff)
  from h have b: "list_all saved_sound (butlast (history g))"
    by (auto simp: list_all_iff dest: in_set_butlastD)
  have d: "dragging (handle_undo g) = None"
    using nd False by (simp add: handle_undo_def load_state_def Let_def)
  from l b False show ?thesis
    unfolding sound_no_drag [OF d]
    by (simp add: handle_undo_def load_state_def Let_def saved_sound_def pile_cards_tableau)
qed

lemma sound_stock_clicked:
  assumes snd: "sound g" and nd: "dragging g = None"
  shows "sound (stock_clicked g)"
proof -
  from snd nd have s: "pile_cards g = mset unshuffled_deck" "runs_ok (tableau g)"
    "list_all saved_sound (history g)" by (simp_all add: sound_no_drag)
  let ?g1 = "g\<lparr>history := history g @ [save_state g]\<rparr>"
  have d: "dragging (stock_clicked g) = None"
    using nd by (simp add: stock_clicked_def check_for_win_def Let_def)
  have "pile_cards (click_stock ?g1) = mset unshuffled_deck"
    using s(1) by (simp add: pile_cards_click_stock)
  then have "pile_cards (stock_clicked g) = mset unshuffled_deck"
    by (simp add: stock_clicked_def check_for_win_def pile_cards_def Let_def)
  moreover have "runs_ok (tableau (stock_clicked g))"
    using s(2) by (simp add: stock_clicked_def check_for_win_def Let_def)
  moreover have "list_all saved_sound (history (stock_clicked g))"
    using s by (simp add: stock_clicked_def check_for_win_def Let_def saved_sound_save_state)
  ultimately show ?thesis unfolding sound_no_drag [OF d] by simp
qed

lemma sound_lift_waste:
  assumes snd: "sound g" and nd: "dragging g = None" and ne: "waste g \<noteq> []"
  shows "sound (lift_waste g ps)"
proof -
  from snd nd have s: "pile_cards g = mset unshuffled_deck" "runs_ok (tableau g)"
    "list_all saved_sound (history g)" by (simp_all add: sound_no_drag)
  have "mset (butlast (waste g) @ [last (waste g)]) = mset (waste g)"
    using ne by simp
  then have w: "mset (butlast (waste g)) + {#last (waste g)#} = mset (waste g)" by simp
  have "all_cards (lift_waste g ps) = pile_cards g"
    by (simp add: all_cards_def drag_cards_def pile_cards_def lift_waste_def Let_def
        w [symmetric])
  with s show ?thesis
    by (simp add: sound_def conserved_def lift_waste_def Let_def saved_sound_save_state)
qed

lemma sound_lift_tableau:
  assumes snd: "sound g" and nd: "dragging g = None" and i: "i < length (tableau g)"
  shows "sound (lift_tableau g ps i cindex)"
proof -
  from snd nd have s: "pile_cards g = mset unshuffled_deck" "runs_ok (tableau g)"
    "list_all saved_sound (history g)" by (simp_all add: sound_no_drag)
  let ?p = "tableau g ! i"
  let ?q = "?p\<lparr>up := take cindex (up ?p)\<rparr>"
  note v = runs_ok_nth [OF s(2) i]
  have tc: "tableau_cards ((tableau g)[i := ?q]) + mset (drop cindex (up ?p))
      = tableau_cards (tableau g)"
  proof -
    have "sum_list (map (\<lambda>p. mset (down p) + mset (up p)) ((tableau g)[i := ?q]))
            + (mset (down ?p) + mset (up ?p))
        = sum_list (map (\<lambda>p. mset (down p) + mset (up p)) (tableau g))
            + (mset (down ?q) + mset (up ?q))"
      using i by (rule sum_list_map_update)
    moreover have "mset (down ?p) + mset (up ?p)
        = mset (down ?q) + mset (up ?q) + mset (drop cindex (up ?p))"
    proof -
      have "mset (up ?p) = mset (take cindex (up ?p)) + mset (drop cindex (up ?p))"
        by (metis append_take_drop_id mset_append)
      then show ?thesis by (simp add: ac_simps)
    qed
    ultimately show ?thesis
      unfolding tableau_cards_def by (simp add: ac_simps)
  qed
  have "all_cards (lift_tableau g ps i cindex) = pile_cards g"
    using tc
    by (simp add: all_cards_def drag_cards_def pile_cards_tableau lift_tableau_def Let_def
        ac_simps)
  moreover have "runs_ok ((tableau g)[i := ?q])"
    using s(2) by (rule runs_ok_update) (simp add: valid_run_take_drop [OF v])
  moreover have "valid_run (drop cindex (up ?p))" by (rule valid_run_take_drop [OF v])
  ultimately show ?thesis
    using s i v
    by (simp add: sound_def conserved_def lift_tableau_def Let_def saved_sound_save_state)
qed

lemma valid_run_single: "length run = 1 \<Longrightarrow> valid_run run"
  by (cases run) simp_all

lemma sound_init:
  assumes "is_shuffle shuffled" and "Solitaire_init shuffled = Inr g"
  shows "sound g"
proof -
  from Solitaire_init_shuffle [OF assms(1)] assms(2)
  have p: "pile_cards g = mset unshuffled_deck" and d: "dragging g = None"
    and h: "history g = []" and u: "list_all (\<lambda>p. length (up p) = 1) (tableau g)"
    by auto
  from u have "runs_ok (tableau g)"
    by (auto simp: runs_ok_def list_all_iff valid_run_single)
  with p h show ?thesis unfolding sound_no_drag [OF d] by simp
qed

lemma sound_mouse_down:
  assumes snd: "sound g" and nd: "dragging g = None" and sh: "is_shuffle shuffled"
    and down: "handle_mouse_down g ps shuffled = Inr g'"
  shows "sound g'"
proof -
  from handle_mouse_down_cases [of g ps shuffled] show ?thesis
  proof (elim disjE conjE exE)
    assume "handle_mouse_down g ps shuffled = Solitaire_init shuffled"
    with down sound_init [OF sh] show ?thesis by simp
  next
    assume "handle_mouse_down g ps shuffled = Inr g"
    with down snd show ?thesis by simp
  next
    assume "handle_mouse_down g ps shuffled = Inr (handle_undo g)"
    with down sound_undo [OF snd nd] show ?thesis by simp
  next
    assume "handle_mouse_down g ps shuffled = Solitaire_init shuffled"
    with down sound_init [OF sh] show ?thesis by simp
  next
    assume "handle_mouse_down g ps shuffled = Inr (stock_clicked g)"
    with down sound_stock_clicked [OF snd nd] show ?thesis by simp
  next
    assume ne: "waste g \<noteq> []" and d: "handle_mouse_down g ps shuffled = Inr (lift_waste g ps)"
    from d down have "g' = lift_waste g ps" by simp
    with sound_lift_waste [OF snd nd ne] show ?thesis by simp
  next
    fix i cindex
    assume fl: "find_lift ps (List.enumerate 0 (tableau g)) = Some (i, cindex)"
      and d: "handle_mouse_down g ps shuffled = Inr (lift_tableau g ps i cindex)"
    from find_lift_enumerate [OF fl] have "i < length (tableau g)" by simp
    from d down have "g' = lift_tableau g ps i cindex" by simp
    with sound_lift_tableau [OF snd nd \<open>i < length (tableau g)\<close>] show ?thesis by simp
  next
    assume "handle_mouse_down g ps shuffled = Inr g"
    with down snd show ?thesis by simp
  qed
qed

lemma dispatch_sound:
  assumes wf: "wf_game g" and snd: "sound g" and ok: "shuffles_ok [e]"
    and press: "case e of MOUSEBUTTONDOWN ps shuffled \<Rightarrow> dragging g = None | _ \<Rightarrow> True"
    and d: "dispatch g e = Inr g'"
  shows "sound g'"
proof (cases e)
  case (MOUSEBUTTONDOWN ps shuffled)
  with ok press d have "is_shuffle shuffled" "dragging g = None"
    "handle_mouse_down g ps shuffled = Inr g'" by simp_all
  with snd show ?thesis using sound_mouse_down by blast
next
  case (MOUSEBUTTONUP ps)
  with d have up: "handle_mouse_up g ps = Inr g'" by simp
  show ?thesis
  proof (cases "dragging g")
    case None
    with up snd show ?thesis by (simp add: handle_mouse_up_def)
  next
    case (Some dr)
    obtain source subpile origin_index dx dy where "dr = (source, subpile, origin_index, dx, dy)"
      by (cases dr)
    with Some have "dragging g = Some (source, subpile, origin_index, dx, dy)" by simp
    from sound_after_drop [OF wf snd this up] show ?thesis .
  qed
next
  case (MOUSEMOTION ps)
  with d snd show ?thesis by (simp add: handle_mouse_motion_def)
qed

lemma run_without_press_in_drag:
  "wf_game g0 \<Longrightarrow> sound g0 \<Longrightarrow> shuffles_ok es \<Longrightarrow> no_press_in_drag g0 es
     \<Longrightarrow> \<exists>g. run_events g0 es = Inr g \<and> wf_game g \<and> sound g"
proof (induction es arbitrary: g0)
  case Nil
  then show ?case by simp
next
  case (Cons e es)
  from Cons.prems(3) have ok: "shuffles_ok [e]" "shuffles_ok es"
    using shuffles_ok_Cons [of e es] by simp_all
  from dispatch_wf [OF Cons.prems(1) ok(1)] obtain g1 where
    d: "dispatch g0 e = Inr g1" and wf1: "wf_game g1" by blast
  from Cons.prems(4) d have press: "case e of MOUSEBUTTONDOWN ps shuffled \<Rightarrow> dragging g0 = None
      | _ \<Rightarrow> True" and rest: "no_press_in_drag g1 es" by simp_all
  from dispatch_sound [OF Cons.prems(1,2) ok(1) press d] have s1: "sound g1" .
  from Cons.IH [OF wf1 s1 ok(2) rest] d show ?case by simp
qed

lemma fresh_game_run:
  assumes "is_shuffle shuffled" and "Solitaire_init shuffled = Inr g0"
    and "shuffles_ok es" and "no_press_in_drag g0 es"
  shows "\<exists>g. run_events g0 es = Inr g \<and> wf_game g \<and> sound g"
proof -
  from Solitaire_init_shuffle [OF assms(1)] assms(2) have "wf_game g0" by auto
  moreover from assms(1,2) have "sound g0" by (rule sound_init)
  ultimately show ?thesis using assms(3,4) by (rule run_without_press_in_drag)
qed

text \<open>
  Card conservation holds for play in which no \<open>MOUSEBUTTONDOWN\<close> arrives while a
  run is being dragged: from a fresh game dealt from any shuffle, every such run of
  events is handled without an exception and ends in a state in which the stock, the
  waste, the spent pile, the tableau, the foundations and the dragged run together hold
  exactly the 52 cards.
\<close>

theorem cards_conserved_without_press_in_drag:
  assumes "is_shuffle shuffled" and "Solitaire_init shuffled = Inr g0"
    and "shuffles_ok es" and "no_press_in_drag g0 es"
  shows "\<exists>g. run_events g0 es = Inr g \<and> conserved g"
  using fresh_game_run [OF assms] by (auto simp: sound_def)

text \<open>
  For the same play, every face-up sequence of the tableau is a strictly
  descending, alternating-colour run in the state reached.
\<close>

theorem runs_valid_without_press_in_drag:
  assumes "is_shuffle shuffled" and "Solitaire_init shuffled = Inr g0"
    and "shuffles_ok es" and "no_press_in_drag g0 es"
  shows "\<exists>g. run_events g0 es = Inr g \<and> tableau_runs_valid g"
  using fresh_game_run [OF assms] by (auto simp: sound_def runs_ok_valid)

lemma stock_click_on_dealt_game:
  "dispatch dealt_game (MOUSEBUTTONDOWN (60, 60) unshuffled_deck) = Inr (stock_clicked dealt_game)"
  by (simp add: handle_mouse_down_def stock_clicked_def dealt_game_def layout_defs Let_def)

theorem cards_conserved_without_press_in_drag_witness:
  "is_shuffle unshuffled_deck \<and> Solitaire_init unshuffled_deck = Inr dealt_game
   \<and> shuffles_ok [MOUSEBUTTONDOWN (60, 60) unshuffled_deck]
   \<and> no_press_in_drag dealt_game [MOUSEBUTTONDOWN (60, 60) unshuffled_deck]
   \<and> run_events dealt_game [MOUSEBUTTONDOWN (60, 60) unshuffled_deck]
       = Inr (stock_clicked dealt_game)
   \<and> conserved (stock_clicked dealt_game)"
proof -
  let ?es = "[MOUSEBUTTONDOWN (60, 60) unshuffled_deck]"
  have ok: "shuffles_ok ?es" by (simp add: is_shuffle_unshuffled)
  have nd: "dragging dealt_game = None" by (simp add: dealt_game_def)
  have np: "no_press_in_drag dealt_game ?es"
    using nd by (simp add: stock_click_on_dealt_game del: dispatch.simps)
  have run: "run_events dealt_game ?es = Inr (stock_clicked dealt_game)"
    by (simp add: stock_click_on_dealt_game del: dispatch.simps)
  from cards_conserved_without_press_in_drag
    [OF is_shuffle_unshuffled Solitaire_init_unshuffled ok np] run
  have "conserved (stock_clicked dealt_game)" by simp
  with is_shuffle_unshuffled Solitaire_init_unshuffled ok np run show ?thesis by simp
qed

lemma drop_lifted_first_pile:
  "dispatch (lift_tableau dealt_game (200, 60) 0 0) (MOUSEBUTTONUP (0, 0))
     = Inr (dealt_game\<lparr>history := [save_state dealt_game]\<rparr>)"
proof -
  let ?g = "lift_tableau dealt_game (200, 60) 0 0"
  have drag: "dragging ?g = Some (FromTableau, [''AH''], Some 0, 40, 10)"
    by (simp add: lift_tableau_def dealt_game_def layout_defs Let_def)
  have nv: "no_valid_destination ?g (0, 0) [''AH'']"
    by (simp add: no_valid_destination_def lift_tableau_def dealt_game_def layout_defs
        foundation_rects_eval enumerate_eq_zip upt_rec Let_def)
  have "handle_mouse_up ?g (0, 0) = Inr (returned ?g (FromTableau, [''AH''], Some 0, 40, 10))"
    using drag _ _ _ nv
    by (rule failed_drop) (simp_all add: lift_tableau_def dealt_game_def Let_def)
  moreover have "returned ?g (FromTableau, [''AH''], Some 0, 40, 10)
      = dealt_game\<lparr>history := [save_state dealt_game]\<rparr>"
    by (simp add: returned_def lift_tableau_def dealt_game_def Let_def)
  ultimately show ?thesis by simp
qed

theorem runs_valid_without_press_in_drag_witness:
  "is_shuffle unshuffled_deck \<and> Solitaire_init unshuffled_deck = Inr dealt_game
   \<and> shuffles_ok [MOUSEBUTTONDOWN (200, 60) unshuffled_deck, MOUSEBUTTONUP (0, 0)]
   \<and> no_press_in_drag dealt_game [MOUSEBUTTONDOWN (200, 60) unshuffled_deck, MOUSEBUTTONUP (0, 0)]
   \<and> run_events dealt_game [MOUSEBUTTONDOWN (200, 60) unshuffled_deck, MOUSEBUTTONUP (0, 0)]
       = Inr (dealt_game\<lparr>history := [save_state dealt_game]\<rparr>)
   \<and> tableau_runs_valid (dealt_game\<lparr>history := [save_state dealt_game]\<rparr>)"
proof -
  let ?es = "[MOUSEBUTTONDOWN (200, 60) unshuffled_deck, MOUSEBUTTONUP (0, 0)]"
  have ok: "shuffles_ok ?es" by (simp add: is_shuffle_unshuffled)
  have nd: "dragging dealt_game = None" by (simp add: dealt_game_def)
  have np: "no_press_in_drag dealt_game ?es"
    using nd
    by (simp add: lift_first_pile_of_dealt_game drop_lifted_first_pile del: dispatch.simps)
  have run: "run_events dealt_game ?es = Inr (dealt_game\<lparr>history := [save_state dealt_game]\<rparr>)"
    by (simp add: lift_first_pile_of_dealt_game drop_lifted_first_pile del: dispatch.simps)
  from runs_valid_without_press_in_drag
    [OF is_shuffle_unshuffled Solitaire_init_unshuffled ok np] run
  have "tableau_runs_valid (dealt_game\<lparr>history := [save_state dealt_game]\<rparr>)" by simp
  with is_shuffle_unshuffled Solitaire_init_unshuffled ok np run show ?thesis by simp
qed

end
